theory Spec2Isabelle
  imports Complex_Main "HOL-Library.AList"
begin

section \<open>Errors\<close>

text \<open>
  The Python exceptions the modelled code can raise. Python's unbounded integers
  are \<^typ>\<open>int\<close>. A float is the \<^typ>\<open>real\<close> number it denotes; the Bucketer is
  modelled twice, with exact arithmetic and with the rounding of doubles.
\<close>

datatype py_error =
    ZeroDivisionError | UnboundLocalError | IndexError | KeyError | AssertionError
  | InvalidAddress  \<comment> \<open>no Python counterpart: a reference outside the store\<close>

section \<open>Bucketer\<close>

record Bucketer =
  lower_bound :: real
  upper_bound :: real
  n_buckets :: int

definition step_size :: "Bucketer \<Rightarrow> real" where
  "step_size bk =
     \<bar>lower_bound bk\<bar> / of_int (n_buckets bk) + \<bar>upper_bound bk\<bar> / of_int (n_buckets bk)"

definition in_bucket :: "Bucketer \<Rightarrow> real \<Rightarrow> real \<Rightarrow> int \<Rightarrow> bool" where
  "in_bucket bk step v bucket \<longleftrightarrow>
     lower_bound bk + of_int bucket * step \<le> v \<and>
     v < lower_bound bk + of_int (bucket + 1) * step"

text \<open>
  The loop \<^verbatim>\<open>for bucket in range(self.n_buckets)\<close>, started at counter \<open>bucket\<close>:
  \<open>Some b\<close> is the early \<^verbatim>\<open>return bucket\<close>, \<open>None\<close> is the loop running to its end.
\<close>

function bucket_loop :: "Bucketer \<Rightarrow> real \<Rightarrow> real \<Rightarrow> int \<Rightarrow> int option" where
  "bucket_loop bk step v bucket =
     (if bucket < n_buckets bk then
        (if in_bucket bk step v bucket then Some bucket
         else bucket_loop bk step v (bucket + 1))
      else None)"
  by pat_completeness auto
termination
  by (relation "measure (\<lambda>(bk, step, v, bucket). nat (n_buckets bk - bucket))") auto

declare bucket_loop.simps [simp del]

text \<open>
  \<^verbatim>\<open>Bucketer.get_bucketed\<close>. A zero \<open>n_buckets\<close> makes the division raise; a negative
  one leaves the loop variable unbound at the comparison after the loop. After a
  loop that ran, the variable holds \<open>n_buckets - 1\<close>.
\<close>

definition get_bucketed :: "Bucketer \<Rightarrow> real \<Rightarrow> py_error + int" where
  "get_bucketed bk v =
     (if n_buckets bk = 0 then Inl ZeroDivisionError
      else
        (case bucket_loop bk (step_size bk) v 0 of
           Some bucket \<Rightarrow> Inr bucket
         | None \<Rightarrow>
             if n_buckets bk < 0 then Inl UnboundLocalError
             else if of_int (n_buckets bk - 1) = upper_bound bk then Inr (n_buckets bk)
             else Inr (- 1)))"


section \<open>Bucketer in double arithmetic\<close>

text \<open>
  Python's floats are IEEE 754 doubles: every arithmetic operation returns the
  double nearest to the exact result, a tie going to the even significand of 53
  bits. \<open>bits n\<close> is the length of \<open>n\<close> in binary and \<open>expo x\<close> the exponent \<open>e\<close> with
  \<open>2^e \<le> x < 2^(e+1)\<close> of a positive \<open>x\<close>; below \<open>2^-1022\<close> the spacing stays that of the
  subnormal numbers. Results beyond the largest double (infinities) are not modelled.
\<close>

fun bits :: "nat \<Rightarrow> nat" where
  "bits n = (if n = 0 then 0 else Suc (bits (n div 2)))"

declare bits.simps [simp del]

definition pow2 :: "int \<Rightarrow> real" where
  "pow2 e = (if 0 \<le> e then 2 ^ nat e else 1 / 2 ^ nat (- e))"

definition expo :: "real \<Rightarrow> int" where
  "expo x = (if 1 \<le> x then int (bits (nat \<lfloor>x\<rfloor>)) - 1
             else - int (bits (nat (\<lceil>1 / x\<rceil> - 1))))"

definition rnd :: "real \<Rightarrow> real" where
  "rnd x =
     (if x = 0 then 0
      else
        (let u = pow2 (max (expo \<bar>x\<bar>) (- 1022) - 52);
             q = \<bar>x\<bar> / u;
             f = \<lfloor>q\<rfloor>;
             m = (if q - of_int f < 1 / 2 then f
                  else if 1 / 2 < q - of_int f then f + 1
                  else if even f then f else f + 1)
         in sgn x * (of_int m * u)))"

text \<open>
  \<^verbatim>\<open>Bucketer.get_bucketed\<close> with every division, product and sum rounded as Python
  rounds it, for bounds and a value that are doubles. The comparisons are exact.
\<close>

definition fl_step_size :: "Bucketer \<Rightarrow> real" where
  "fl_step_size bk =
     rnd (rnd (\<bar>lower_bound bk\<bar> / of_int (n_buckets bk)) +
          rnd (\<bar>upper_bound bk\<bar> / of_int (n_buckets bk)))"

definition fl_in_bucket :: "Bucketer \<Rightarrow> real \<Rightarrow> real \<Rightarrow> int \<Rightarrow> bool" where
  "fl_in_bucket bk step v bucket \<longleftrightarrow>
     rnd (lower_bound bk + rnd (of_int bucket * step)) \<le> v \<and>
     v < rnd (lower_bound bk + rnd (of_int (bucket + 1) * step))"

function fl_bucket_loop :: "Bucketer \<Rightarrow> real \<Rightarrow> real \<Rightarrow> int \<Rightarrow> int option" where
  "fl_bucket_loop bk step v bucket =
     (if bucket < n_buckets bk then
        (if fl_in_bucket bk step v bucket then Some bucket
         else fl_bucket_loop bk step v (bucket + 1))
      else None)"
  by pat_completeness auto
termination
  by (relation "measure (\<lambda>(bk, step, v, bucket). nat (n_buckets bk - bucket))") auto

declare fl_bucket_loop.simps [simp del]

definition fl_get_bucketed :: "Bucketer \<Rightarrow> real \<Rightarrow> py_error + int" where
  "fl_get_bucketed bk v =
     (if n_buckets bk = 0 then Inl ZeroDivisionError
      else
        (case fl_bucket_loop bk (fl_step_size bk) v 0 of
           Some bucket \<Rightarrow> Inr bucket
         | None \<Rightarrow>
             if n_buckets bk < 0 then Inl UnboundLocalError
             else if of_int (n_buckets bk - 1) = upper_bound bk then Inr (n_buckets bk)
             else Inr (- 1)))"

section \<open>MultiBucketer\<close>

record MultiBucketer =
  mb_n :: nat
  mb_n_buckets :: int
  bucketers :: "Bucketer list"

text \<open>\<^verbatim>\<open>MultiBucketer.__init__\<close>: the assertion, then one Bucketer per zipped pair of bounds.\<close>

definition MultiBucketer_init :: "real list \<Rightarrow> real list \<Rightarrow> int \<Rightarrow> py_error + MultiBucketer" where
  "MultiBucketer_init lower_bounds upper_bounds nb =
     (if length lower_bounds \<noteq> length upper_bounds then Inl AssertionError
      else Inr \<lparr>mb_n = length lower_bounds, mb_n_buckets = nb,
                bucketers = map (\<lambda>(lower, upper).
                                   \<lparr>lower_bound = lower, upper_bound = upper, n_buckets = nb\<rparr>)
                                (zip lower_bounds upper_bounds)\<rparr>)"

text \<open>
  The list comprehension of \<^verbatim>\<open>MultiBucketer.get_bucketed\<close> over the zipped pairs; the
  first bucketer that raises ends it.
\<close>

fun bucket_all :: "(Bucketer \<times> real) list \<Rightarrow> py_error + int list" where
  "bucket_all [] = Inr []"
| "bucket_all ((bucketer, v) # rest) =
     (case get_bucketed bucketer v of
        Inl e \<Rightarrow> Inl e
      | Inr b \<Rightarrow> (case bucket_all rest of Inl e \<Rightarrow> Inl e | Inr bs \<Rightarrow> Inr (b # bs)))"

definition mb_get_bucketed :: "MultiBucketer \<Rightarrow> real list \<Rightarrow> py_error + int list" where
  "mb_get_bucketed mb vs = bucket_all (zip (bucketers mb) vs)"

section \<open>ObservationDict\<close>

text \<open>
  Observation coordinates are Python numbers. A mapping compares keys by numeric
  value (\<open>1 == 1.0\<close>), an array accepts only integers as an index.
\<close>

datatype num = PyInt int | PyFloat real

fun num_val :: "num \<Rightarrow> real" where
  "num_val (PyInt i) = of_int i"
| "num_val (PyFloat x) = x"

text \<open>
  The objects behind the table live in a store, addressed by their position: a
  mapping holds references to its children, in insertion order, and a leaf is the
  array made by \<^verbatim>\<open>full\<close>. Allocation appends to the store. What \<^verbatim>\<open>get\<close> hands around
  is a cell: a reference into the store, or the number read out of an array.
\<close>

type_synonym addr = nat

datatype obj = Dict "(real \<times> addr) list" | Vec "real list"

type_synonym store = "obj list"

datatype cell = Ref addr | Scalar real

record ObservationDict =
  table :: addr
  init_value :: real
  n_actions :: nat
  bucketer :: "MultiBucketer option"

text \<open>\<^verbatim>\<open>ObservationDict.__init__\<close>: the empty mapping is the only object of the store.\<close>

definition ObservationDict_init ::
  "real \<Rightarrow> nat \<Rightarrow> MultiBucketer option \<Rightarrow> ObservationDict \<times> store" where
  "ObservationDict_init iv na b =
     (\<lparr>table = 0, init_value = iv, n_actions = na, bucketer = b\<rparr>, [Dict []])"

text \<open>
  The expression \<^verbatim>\<open>cell[key]\<close>. On a mapping it finds the child or raises KeyError
  (\<open>Missing\<close>, with the mapping's address and entries); on an array an integer
  within \<open>-len \<dots> len - 1\<close> reads an element and anything else raises IndexError; a
  number read out of an array cannot be indexed.
\<close>

datatype subscript_result = Got cell | Missing addr "(real \<times> addr) list" | Raised py_error

fun subscript :: "store \<Rightarrow> cell \<Rightarrow> num \<Rightarrow> subscript_result" where
  "subscript s (Scalar x) key = Raised IndexError"
| "subscript s (Ref a) key =
     (if a < length s then
        (case s ! a of
           Dict entries \<Rightarrow>
             (case map_of entries (num_val key) of
                Some b \<Rightarrow> Got (Ref b)
              | None \<Rightarrow> Missing a entries)
         | Vec xs \<Rightarrow>
             (case key of
                PyInt i \<Rightarrow>
                  if - int (length xs) \<le> i \<and> i < int (length xs)
                  then Got (Scalar (xs ! nat (if i < 0 then i + int (length xs) else i)))
                  else Raised IndexError
              | PyFloat x \<Rightarrow> Raised IndexError))
      else Raised InvalidAddress)"

text \<open>\<^verbatim>\<open>{} if i != len(observation) - 1 else full(self.n_actions, self.init_value)\<close>\<close>

definition new_cell :: "ObservationDict \<Rightarrow> nat \<Rightarrow> nat \<Rightarrow> obj" where
  "new_cell od i len =
     (if int i \<noteq> int len - 1 then Dict [] else Vec (replicate (n_actions od) (init_value od)))"

text \<open>
  The loop \<^verbatim>\<open>for i, key in enumerate(observation)\<close> of \<^verbatim>\<open>ObservationDict.get\<close>, at
  index \<open>i\<close> with the keys still to come. In the handler the new object is
  allocated, stored under the key, and \<^verbatim>\<open>cell[key]\<close> is read again. The store is
  returned with an exception too.
\<close>

fun walk ::
  "ObservationDict \<Rightarrow> nat \<Rightarrow> store \<Rightarrow> cell \<Rightarrow> nat \<Rightarrow> num list \<Rightarrow> (py_error + cell) \<times> store" where
  "walk od len s c i [] = (Inr c, s)"
| "walk od len s c i (key # rest) =
     (case subscript s c key of
        Got c' \<Rightarrow> walk od len s c' (Suc i) rest
      | Raised e \<Rightarrow> (Inl e, s)
      | Missing a entries \<Rightarrow>
          (let s' = (s @ [new_cell od i len])
                      [a := Dict (AList.update (num_val key) (length s) entries)]
           in case subscript s' c key of
                Got c' \<Rightarrow> walk od len s' c' (Suc i) rest
              | Raised e \<Rightarrow> (Inl e, s')
              | Missing a' entries' \<Rightarrow> (Inl KeyError, s')))"

definition od_get ::
  "ObservationDict \<Rightarrow> store \<Rightarrow> num list \<Rightarrow> (py_error + cell) \<times> store" where
  "od_get od s observation =
     (case bucketer od of
        None \<Rightarrow> walk od (length observation) s (Ref (table od)) 0 observation
      | Some mb \<Rightarrow>
          (case mb_get_bucketed mb (map num_val observation) of
             Inl e \<Rightarrow> (Inl e, s)
           | Inr bs \<Rightarrow> walk od (length bs) s (Ref (table od)) 0 (map PyInt bs)))"

text \<open>
  The key sequence \<^verbatim>\<open>get\<close> walks for an observation: the bucketed one when a
  bucketer is configured.
\<close>

definition keys_of :: "ObservationDict \<Rightarrow> num list \<Rightarrow> py_error + num list" where
  "keys_of od observation =
     (case bucketer od of
        None \<Rightarrow> Inr observation
      | Some mb \<Rightarrow>
          (case mb_get_bucketed mb (map num_val observation) of
             Inl e \<Rightarrow> Inl e
           | Inr bs \<Rightarrow> Inr (map PyInt bs)))"

text \<open>
  The caller's in-place write \<^verbatim>\<open>v[a] = x\<close> through a returned reference, for an
  action index \<open>a\<close> within the array.
\<close>

definition write_item :: "store \<Rightarrow> addr \<Rightarrow> nat \<Rightarrow> real \<Rightarrow> store option" where
  "write_item s r a x =
     (if r < length s then
        (case s ! r of
           Vec xs \<Rightarrow> if a < length xs then Some (s[r := Vec (xs[a := x])]) else None
         | Dict entries \<Rightarrow> None)
      else None)"

text \<open>Following a key sequence through the nested mappings without creating anything.\<close>

fun reach :: "store \<Rightarrow> cell \<Rightarrow> num list \<Rightarrow> cell option" where
  "reach s c [] = Some c"
| "reach s c (key # rest) =
     (case subscript s c key of Got c' \<Rightarrow> reach s c' rest | _ \<Rightarrow> None)"

text \<open>
  The states of a table: the one the constructor makes, and those that calls of
  \<^verbatim>\<open>get\<close> and in-place writes to leaves lead to.
\<close>

inductive reachable :: "ObservationDict \<Rightarrow> store \<Rightarrow> bool" where
  fresh: "ObservationDict_init iv na b = (od, s) \<Longrightarrow> reachable od s"
| after_get: "reachable od s \<Longrightarrow> od_get od s observation = (r, s') \<Longrightarrow> reachable od s'"
| after_write: "reachable od s \<Longrightarrow> write_item s r a x = Some s' \<Longrightarrow> reachable od s'"

section \<open>Table shapes\<close>

text \<open>
  The store a first \<^verbatim>\<open>get\<close> builds from address \<open>a\<close> on: one mapping per key, each
  with the single entry that leads to the next object.
\<close>

fun chain :: "addr \<Rightarrow> num list \<Rightarrow> obj list" where
  "chain a [] = []"
| "chain a (key # rest) = Dict [(num_val key, Suc a)] # chain (Suc a) rest"

text \<open>Every leaf of the store is an array of \<open>n_actions\<close> numbers.\<close>

definition leaves_ok :: "ObservationDict \<Rightarrow> store \<Rightarrow> bool" where
  "leaves_ok od s =
     list_all (\<lambda>ob. case ob of Vec xs \<Rightarrow> length xs = n_actions od | Dict entries \<Rightarrow> True) s"

text \<open>
  A later store keeps what an earlier one had: every mapping is still a mapping
  with at least the same entries, every array still an array of the same length.
\<close>

definition store_le :: "store \<Rightarrow> store \<Rightarrow> bool" where
  "store_le s s' \<longleftrightarrow>
     length s \<le> length s' \<and>
     (\<forall>a<length s.
        (\<forall>es. s ! a = Dict es \<longrightarrow> (\<exists>es'. s' ! a = Dict es' \<and> map_of es \<subseteq>\<^sub>m map_of es')) \<and>
        (\<forall>xs. s ! a = Vec xs \<longrightarrow> (\<exists>xs'. s' ! a = Vec xs' \<and> length xs' = length xs)))"

text \<open>
  The nested mappings form a tree below the root: every object can be given the
  key sequence that leads to it, the root the empty one and a child its parent's
  sequence extended by the child's key.
\<close>

definition tree_inv :: "addr \<Rightarrow> store \<Rightarrow> (addr \<Rightarrow> real list) \<Rightarrow> bool" where
  "tree_inv rt s P \<longleftrightarrow>
     rt < length s \<and> (\<exists>es. s ! rt = Dict es) \<and> P rt = [] \<and>
     (\<forall>d<length s. \<forall>es. s ! d = Dict es \<longrightarrow>
        (\<forall>(k, b)\<in>set es. b < length s \<and> P b = P d @ [k]))"

text \<open>
  The states of a table that is only ever asked with key sequences of one length
  \<open>k\<close>, as the observations of one environment are.
\<close>

inductive uniform :: "nat \<Rightarrow> ObservationDict \<Rightarrow> store \<Rightarrow> bool" where
  u_fresh: "ObservationDict_init iv na b = (od, s) \<Longrightarrow> uniform k od s"
| u_get: "uniform k od s \<Longrightarrow> keys_of od observation = Inr ks \<Longrightarrow> length ks = k \<Longrightarrow>
          od_get od s observation = (r, s') \<Longrightarrow> uniform k od s'"
| u_write: "uniform k od s \<Longrightarrow> write_item s r a x = Some s' \<Longrightarrow> uniform k od s'"

text \<open>
  In such a table every object has a height: a leaf has height \<open>0\<close> and \<open>n_actions\<close>
  entries, a mapping is one above each of its children, and the root has height \<open>k\<close>.
\<close>

definition depth_inv :: "ObservationDict \<Rightarrow> nat \<Rightarrow> store \<Rightarrow> (addr \<Rightarrow> nat) \<Rightarrow> bool" where
  "depth_inv od k s H \<longleftrightarrow>
     table od < length s \<and> H (table od) = k \<and>
     (\<forall>d<length s.
        (\<forall>xs. s ! d = Vec xs \<longrightarrow> H d = 0 \<and> length xs = n_actions od) \<and>
        (\<forall>es. s ! d = Dict es \<longrightarrow>
           0 < H d \<and> (\<forall>(key, b)\<in>set es. b < length s \<and> Suc (H b) = H d)))"

section \<open>Bucketer: the loop\<close>



section \<open>Bucketer: the claims\<close>



text \<open>
  C2. The Bucketer with bounds \<open>0\<close> and \<open>10\<close> and \<open>5\<close> buckets has step size \<open>2\<close>, and
  it puts \<open>0\<close> and \<open>1.999\<close> in bucket \<open>0\<close>, \<open>2.0\<close> in bucket \<open>1\<close> and \<open>9.999\<close> in bucket \<open>4\<close>.
\<close>

theorem get_bucketed_boundary_law:
  "step_size \<lparr>lower_bound = 0, upper_bound = 10, n_buckets = 5\<rparr> = 2 \<and>
   get_bucketed \<lparr>lower_bound = 0, upper_bound = 10, n_buckets = 5\<rparr> 0 = Inr 0 \<and>
   get_bucketed \<lparr>lower_bound = 0, upper_bound = 10, n_buckets = 5\<rparr> 1.999 = Inr 0 \<and>
   get_bucketed \<lparr>lower_bound = 0, upper_bound = 10, n_buckets = 5\<rparr> 2.0 = Inr 1 \<and>
   get_bucketed \<lparr>lower_bound = 0, upper_bound = 10, n_buckets = 5\<rparr> 9.999 = Inr 4"
  by (simp add: get_bucketed_def step_size_def in_bucket_def bucket_loop.simps)

lemmas fl_eval = rnd_def expo_def pow2_def bits.simps Let_def

lemma fl_step_size_49:
  "fl_step_size \<lparr>lower_bound = 0, upper_bound = 1, n_buckets = 49\<rparr> = 5882252574524729 / 2 ^ 58"
  by (simp add: fl_step_size_def fl_eval)

lemma fl_upper_edge_49:
  "rnd (49 * (5882252574524729 / 2 ^ 58)) = 9007199254740991 / 9007199254740992"
  by (simp add: fl_eval)

text \<open>
  C4. In the arithmetic of doubles the code does not give every value of
  \<open>[lower_bound, upper_bound)\<close> a bucket of \<open>[0, n_buckets)\<close>, and the bucket is not
  monotone. For the Bucketer with bounds \<open>0\<close> and \<open>1\<close> and \<open>49\<close> buckets the step is the
  double nearest to \<open>1/49\<close>, and \<open>49\<close> steps round to \<open>1 - 2^-53\<close>, the largest double
  below \<open>1\<close> (Python prints it as \<^verbatim>\<open>0.9999999999999999\<close>). For that value no test of the
  loop succeeds and the code returns \<open>-1\<close>, while the smaller value \<open>0.5\<close> gets bucket \<open>24\<close>.
\<close>

theorem get_bucketed_double_out_of_range:
  "lower_bound \<lparr>lower_bound = 0, upper_bound = 1, n_buckets = 49\<rparr>
     < upper_bound \<lparr>lower_bound = 0, upper_bound = 1, n_buckets = 49\<rparr> \<and>
   0 < n_buckets \<lparr>lower_bound = 0, upper_bound = 1, n_buckets = 49\<rparr> \<and>
   rnd (9007199254740991 / 9007199254740992) = 9007199254740991 / 9007199254740992 \<and>
   (0::real) \<le> 1 / 2 \<and> (1 / 2 :: real) \<le> 9007199254740991 / 9007199254740992 \<and>
   (9007199254740991 / 9007199254740992 :: real) < 1 \<and>
   fl_get_bucketed \<lparr>lower_bound = 0, upper_bound = 1, n_buckets = 49\<rparr> (1 / 2) = Inr 24 \<and>
   fl_get_bucketed \<lparr>lower_bound = 0, upper_bound = 1, n_buckets = 49\<rparr>
     (9007199254740991 / 9007199254740992) = Inr (- 1)"
proof -
  have v: "rnd (9007199254740991 / 9007199254740992) = 9007199254740991 / 9007199254740992"
    by (simp add: fl_eval)
  have a: "fl_get_bucketed \<lparr>lower_bound = 0, upper_bound = 1, n_buckets = 49\<rparr> (1 / 2) = Inr 24"
    by (simp add: fl_get_bucketed_def fl_step_size_49 fl_in_bucket_def fl_bucket_loop.simps fl_eval)
  have b: "fl_get_bucketed \<lparr>lower_bound = 0, upper_bound = 1, n_buckets = 49\<rparr>
      (9007199254740991 / 9007199254740992) = Inr (- 1)"
    by (simp add: fl_get_bucketed_def fl_step_size_49 fl_in_bucket_def fl_bucket_loop.simps fl_eval)
  from v a b show ?thesis by simp
qed

section \<open>MultiBucketer: the comprehension\<close>

lemma get_bucketed_total: "0 < n_buckets bk \<Longrightarrow> \<exists>b. get_bucketed bk v = Inr b"
  by (simp add: get_bucketed_def split: option.split)

lemma bucket_all_Inr_iff:
  "bucket_all ps = Inr out \<longleftrightarrow>
     length out = length ps \<and>
     (\<forall>i<length ps. get_bucketed (fst (ps ! i)) (snd (ps ! i)) = Inr (out ! i))"
proof (induction ps arbitrary: out)
  case Nil
  then show ?case by auto
next
  case (Cons p ps)
  obtain bk v where p: "p = (bk, v)" by (cases p)
  show ?case
  proof (cases out)
    case Nil
    then show ?thesis by (auto simp: p split: sum.splits)
  next
    case (Cons b bs)
    have "bucket_all (p # ps) = Inr (b # bs) \<longleftrightarrow>
            get_bucketed bk v = Inr b \<and> bucket_all ps = Inr bs"
      by (auto simp: p split: sum.splits)
    also have "\<dots> \<longleftrightarrow> get_bucketed bk v = Inr b \<and> length bs = length ps \<and>
        (\<forall>i<length ps. get_bucketed (fst (ps ! i)) (snd (ps ! i)) = Inr (bs ! i))"
      by (simp add: Cons.IH)
    also have "\<dots> \<longleftrightarrow> length (b # bs) = length (p # ps) \<and>
        (\<forall>i<length (p # ps). get_bucketed (fst ((p # ps) ! i)) (snd ((p # ps) ! i)) = Inr ((b # bs) ! i))"
      by (auto simp: p nth_Cons split: nat.splits)
    finally show ?thesis by (simp add: Cons)
  qed
qed

lemma bucket_all_total:
  "\<forall>p\<in>set ps. 0 < n_buckets (fst p) \<Longrightarrow> \<exists>out. bucket_all ps = Inr out"
proof (induction ps)
  case Nil
  then show ?case by simp
next
  case (Cons p ps)
  obtain bk v where p: "p = (bk, v)" by (cases p)
  from Cons.prems p have "0 < n_buckets bk" by simp
  then obtain b where "get_bucketed bk v = Inr b"
    using get_bucketed_total by blast
  moreover from Cons obtain bs where "bucket_all ps = Inr bs" by auto
  ultimately show ?case by (simp add: p)
qed

lemma MultiBucketer_init_Inr:
  assumes "MultiBucketer_init lowers uppers nb = Inr mb"
  shows "length lowers = length uppers" and "mb_n mb = length lowers"
    and "length (bucketers mb) = length lowers"
    and "\<And>i. i < length lowers \<Longrightarrow>
           bucketers mb ! i = \<lparr>lower_bound = lowers ! i, upper_bound = uppers ! i, n_buckets = nb\<rparr>"
    and "\<And>bk. bk \<in> set (bucketers mb) \<Longrightarrow> n_buckets bk = nb"
  using assms by (auto simp: MultiBucketer_init_def split: if_splits)

lemma mb_get_bucketed_zip:
  assumes "\<forall>bk\<in>set (bucketers mb). 0 < n_buckets bk"
  shows "\<exists>out. mb_get_bucketed mb vs = Inr out \<and>
           length out = min (length (bucketers mb)) (length vs) \<and>
           (\<forall>i<length out. get_bucketed (bucketers mb ! i) (vs ! i) = Inr (out ! i))"
proof -
  have "\<forall>p\<in>set (zip (bucketers mb) vs). 0 < n_buckets (fst p)"
    using assms by (auto dest: set_zip_leftD)
  then obtain out where out: "bucket_all (zip (bucketers mb) vs) = Inr out"
    using bucket_all_total by blast
  then have "length out = min (length (bucketers mb)) (length vs)"
    and "\<forall>i<length out. get_bucketed (bucketers mb ! i) (vs ! i) = Inr (out ! i)"
    by (auto simp: bucket_all_Inr_iff)
  with out show ?thesis by (simp add: mb_get_bucketed_def)
qed

lemma example_init:
  "MultiBucketer_init [0, - 5] [10, 5] 5 =
     Inr \<lparr>mb_n = 2, mb_n_buckets = 5, bucketers =
            [\<lparr>lower_bound = 0, upper_bound = 10, n_buckets = 5\<rparr>,
             \<lparr>lower_bound = - 5, upper_bound = 5, n_buckets = 5\<rparr>]\<rparr>"
  by (simp add: MultiBucketer_init_def)

lemmas bucket_eval =
  mb_get_bucketed_def get_bucketed_def step_size_def in_bucket_def bucket_loop.simps

section \<open>ObservationDict: walking the store\<close>

lemma subscript_MissingD:
  "subscript s c key = Missing a es \<Longrightarrow>
     c = Ref a \<and> a < length s \<and> s ! a = Dict es \<and> map_of es (num_val key) = None"
  by (cases c) (auto split: if_splits obj.splits option.splits num.splits)

lemma subscript_Got_RefD:
  "subscript s c key = Got (Ref b) \<Longrightarrow>
     \<exists>a es. c = Ref a \<and> a < length s \<and> s ! a = Dict es \<and> map_of es (num_val key) = Some b"
  by (cases c) (auto split: if_splits obj.splits option.splits num.splits)

lemma subscript_Got_RefI:
  "a < length s \<Longrightarrow> s ! a = Dict es \<Longrightarrow> map_of es (num_val key) = Some b \<Longrightarrow>
     subscript s (Ref a) key = Got (Ref b)"
  by simp

lemma subscript_Got_ScalarD:
  "subscript s c key = Got (Scalar x) \<Longrightarrow> \<exists>a xs. c = Ref a \<and> a < length s \<and> s ! a = Vec xs"
  by (cases c) (auto split: if_splits obj.splits option.splits num.splits)

lemma store_le_refl: "store_le s s"
  by (simp add: store_le_def)

lemma store_le_DictD:
  "store_le s s' \<Longrightarrow> a < length s \<Longrightarrow> s ! a = Dict es \<Longrightarrow>
     \<exists>es'. s' ! a = Dict es' \<and> map_of es \<subseteq>\<^sub>m map_of es'"
  unfolding store_le_def by blast

lemma store_le_VecD:
  "store_le s s' \<Longrightarrow> a < length s \<Longrightarrow> s ! a = Vec xs \<Longrightarrow>
     \<exists>xs'. s' ! a = Vec xs' \<and> length xs' = length xs"
  unfolding store_le_def by blast

lemma store_le_length: "store_le s s' \<Longrightarrow> length s \<le> length s'"
  unfolding store_le_def by blast

lemma store_le_trans:
  assumes 1: "store_le s s'" and 2: "store_le s' s''"
  shows "store_le s s''"
  unfolding store_le_def
proof (intro conjI allI impI)
  show "length s \<le> length s''"
    using store_le_length [OF 1] store_le_length [OF 2] by simp
next
  fix a es assume a: "a < length s" and d: "s ! a = Dict es"
  from store_le_DictD [OF 1 a d] obtain es' where
    d': "s' ! a = Dict es'" and le: "map_of es \<subseteq>\<^sub>m map_of es'" by blast
  from a store_le_length [OF 1] have a': "a < length s'" by simp
  from store_le_DictD [OF 2 a' d'] obtain es'' where
    d'': "s'' ! a = Dict es''" and le': "map_of es' \<subseteq>\<^sub>m map_of es''" by blast
  from le le' have "map_of es \<subseteq>\<^sub>m map_of es''" by (rule map_le_trans)
  with d'' show "\<exists>es'. s'' ! a = Dict es' \<and> map_of es \<subseteq>\<^sub>m map_of es'" by blast
next
  fix a xs assume a: "a < length s" and d: "s ! a = Vec xs"
  from store_le_VecD [OF 1 a d] obtain xs' where
    d': "s' ! a = Vec xs'" and le: "length xs' = length xs" by blast
  from a store_le_length [OF 1] have a': "a < length s'" by simp
  from store_le_VecD [OF 2 a' d'] obtain xs'' where
    d'': "s'' ! a = Vec xs''" and le': "length xs'' = length xs'" by blast
  with le show "\<exists>xs'. s'' ! a = Vec xs' \<and> length xs' = length xs" by simp
qed

lemma store_le_subscript:
  assumes "store_le s s'" and "subscript s c key = Got (Ref b)"
  shows "subscript s' c key = Got (Ref b)"
proof -
  from subscript_Got_RefD [OF assms(2)] obtain a es where
    c: "c = Ref a" and a: "a < length s" and d: "s ! a = Dict es"
    and m: "map_of es (num_val key) = Some b" by blast
  from store_le_DictD [OF assms(1) a d] obtain es' where
    d': "s' ! a = Dict es'" and le: "map_of es \<subseteq>\<^sub>m map_of es'" by blast
  from m have "num_val key \<in> dom (map_of es)" by (rule domI)
  with le m have "map_of es' (num_val key) = Some b"
    unfolding map_le_def by (simp add: Ball_def)
  moreover from store_le_length [OF assms(1)] a have "a < length s'" by simp
  ultimately show ?thesis using c d' by simp
qed

lemma reach_Ref_start: "reach s c ks = Some (Ref a) \<Longrightarrow> \<exists>b. c = Ref b"
  by (cases ks; cases c) (auto split: subscript_result.splits)

lemma store_le_reach:
  "store_le s s' \<Longrightarrow> reach s c ks = Some (Ref a) \<Longrightarrow> reach s' c ks = Some (Ref a)"
proof (induction ks arbitrary: c)
  case Nil
  then show ?case by simp
next
  case (Cons key rest)
  from Cons.prems(2) obtain c' where g: "subscript s c key = Got c'"
    and r: "reach s c' rest = Some (Ref a)"
    by (auto split: subscript_result.splits)
  from reach_Ref_start [OF r] obtain b where c': "c' = Ref b" by blast
  from store_le_subscript [OF Cons.prems(1) g [unfolded c']]
  have "subscript s' c key = Got (Ref b)" .
  with Cons.IH [OF Cons.prems(1) r] c' show ?case by simp
qed

lemma map_of_update_absent:
  "map_of es k = None \<Longrightarrow> map_of es \<subseteq>\<^sub>m map_of (AList.update k v es)"
  by (auto simp: update_conv' map_le_def)

lemma set_update_absent:
  "map_of es k = None \<Longrightarrow> set (AList.update k v es) = insert (k, v) (set es)"
  by (induction es) (auto split: if_splits)

lemma missing_step:
  assumes "subscript s c key = Missing a es"
    and s1_def: "s1 = (s @ [ob])[a := Dict (AList.update (num_val key) (length s) es)]"
  shows "subscript s1 c key = Got (Ref (length s))"
    and "store_le s s1" and "length s1 = Suc (length s)"
    and "s1 ! length s = ob"
    and "\<And>d. d < length s \<Longrightarrow> d \<noteq> a \<Longrightarrow> s1 ! d = s ! d"
    and "s1 ! a = Dict (AList.update (num_val key) (length s) es)"
proof -
  from subscript_MissingD [OF assms(1)] have c: "c = Ref a" and a: "a < length s"
    and d: "s ! a = Dict es" and m: "map_of es (num_val key) = None" by simp_all
  show l: "length s1 = Suc (length s)" by (simp add: s1_def)
  show at_a: "s1 ! a = Dict (AList.update (num_val key) (length s) es)"
    using a by (simp add: s1_def)
  then show "subscript s1 c key = Got (Ref (length s))"
    using a c l by (simp add: update_conv')
  show "s1 ! length s = ob" using a by (simp add: s1_def)
  show other: "\<And>d. d < length s \<Longrightarrow> d \<noteq> a \<Longrightarrow> s1 ! d = s ! d"
    by (simp add: s1_def nth_append)
  show "store_le s s1"
    unfolding store_le_def
  proof (intro conjI allI impI)
    show "length s \<le> length s1" using l by simp
  next
    fix b es0 assume b: "b < length s" and d0: "s ! b = Dict es0"
    show "\<exists>es'. s1 ! b = Dict es' \<and> map_of es0 \<subseteq>\<^sub>m map_of es'"
    proof (cases "b = a")
      case True
      with d d0 have "es0 = es" by simp
      with True at_a map_of_update_absent [OF m] show ?thesis by simp
    next
      case False
      with other [OF b] d0 show ?thesis by simp
    qed
  next
    fix b xs assume b: "b < length s" and d0: "s ! b = Vec xs"
    with d have "b \<noteq> a" by auto
    with other [OF b] d0 show "\<exists>xs'. s1 ! b = Vec xs' \<and> length xs' = length xs" by simp
  qed
qed

lemma walk_Missing:
  assumes "subscript s c key = Missing a es"
  shows "walk od len s c i (key # rest) =
         walk od len ((s @ [new_cell od i len])[a := Dict (AList.update (num_val key) (length s) es)])
           (Ref (length s)) (Suc i) rest"
  using assms missing_step(1) [OF assms refl, of "new_cell od i len"]
  by (simp add: Let_def)

lemma walk_store_le: "walk od len s c i ks = (r, s') \<Longrightarrow> store_le s s'"
proof (induction ks arbitrary: s c i)
  case Nil
  then show ?case by (simp add: store_le_refl)
next
  case (Cons key rest)
  show ?case
  proof (cases "subscript s c key")
    case (Got c')
    with Cons show ?thesis by simp
  next
    case (Missing a es)
    let ?s1 = "(s @ [new_cell od i len])[a := Dict (AList.update (num_val key) (length s) es)]"
    from Cons.prems have "walk od len ?s1 (Ref (length s)) (Suc i) rest = (r, s')"
      by (simp only: walk_Missing [OF Missing])
    from Cons.IH [OF this] missing_step(2) [OF Missing refl, of "new_cell od i len"]
    show ?thesis by (blast intro: store_le_trans)
  next
    case (Raised e)
    with Cons.prems show ?thesis by (simp add: store_le_refl)
  qed
qed

lemma walk_Ref_start: "walk od len s c i ks = (Inr (Ref a), s') \<Longrightarrow> \<exists>b. c = Ref b"
  by (cases ks; cases c) auto

lemma walk_reach:
  "walk od len s c i ks = (Inr (Ref a), s') \<Longrightarrow> reach s' c ks = Some (Ref a)"
proof (induction ks arbitrary: s c i)
  case Nil
  then show ?case by simp
next
  case (Cons key rest)
  show ?case
  proof (cases "subscript s c key")
    case (Got c')
    with Cons.prems have w: "walk od len s c' (Suc i) rest = (Inr (Ref a), s')" by simp
    from walk_Ref_start [OF w] obtain b where c': "c' = Ref b" by blast
    from store_le_subscript [OF walk_store_le [OF w] Got [unfolded c']]
    have "subscript s' c key = Got (Ref b)" .
    with Cons.IH [OF w] c' show ?thesis by simp
  next
    case (Missing a0 es)
    let ?s1 = "(s @ [new_cell od i len])[a0 := Dict (AList.update (num_val key) (length s) es)]"
    from Cons.prems have w: "walk od len ?s1 (Ref (length s)) (Suc i) rest = (Inr (Ref a), s')"
      by (simp only: walk_Missing [OF Missing])
    from store_le_subscript [OF walk_store_le [OF w] missing_step(1) [OF Missing refl]]
    have "subscript s' c key = Got (Ref (length s))" .
    with Cons.IH [OF w] show ?thesis by simp
  next
    case (Raised e)
    with Cons.prems show ?thesis by simp
  qed
qed

lemma reach_walk:
  "reach s c ks = Some r \<Longrightarrow> walk od len s c i ks = (Inr r, s)"
  by (induction ks arbitrary: c i) (auto split: subscript_result.splits)

lemma walk_idempotent:
  "walk od len s c i ks = (Inr (Ref a), s') \<Longrightarrow> walk od len s' c i ks = (Inr (Ref a), s')"
  by (rule reach_walk [OF walk_reach])


lemma od_get_keys_of:
  "keys_of od obs = Inr ks \<Longrightarrow>
     od_get od s obs = walk od (length ks) s (Ref (table od)) 0 ks"
  by (auto simp: keys_of_def od_get_def split: option.splits sum.splits)

lemma od_get_keys_of_Inl: "keys_of od obs = Inl e \<Longrightarrow> od_get od s obs = (Inl e, s)"
  by (auto simp: keys_of_def od_get_def split: option.splits sum.splits)

lemma od_get_InrD: "od_get od s obs = (Inr c, s') \<Longrightarrow> \<exists>ks. keys_of od obs = Inr ks"
  by (auto simp: keys_of_def od_get_def split: option.splits sum.splits)

section \<open>ObservationDict: what a call keeps\<close>

lemma leaves_ok_iff:
  "leaves_ok od s \<longleftrightarrow> (\<forall>a<length s. \<forall>xs. s ! a = Vec xs \<longrightarrow> length xs = n_actions od)"
  by (auto simp: leaves_ok_def list_all_length split: obj.splits)

lemma missing_step_leaves_ok:
  assumes m: "subscript s c key = Missing a es" and ok: "leaves_ok od s"
    and s1: "s1 = (s @ [new_cell od i len])[a := Dict (AList.update (num_val key) (length s) es)]"
  shows "leaves_ok od s1"
  unfolding leaves_ok_iff
proof (intro allI impI)
  fix b xs assume b: "b < length s1" and v: "s1 ! b = Vec xs"
  note st = missing_step [OF m s1]
  from subscript_MissingD [OF m] have a: "a < length s" by simp
  from v st(6) have ba: "b \<noteq> a" by auto
  show "length xs = n_actions od"
  proof (cases "b < length s")
    case True
    with st(5) [OF True ba] v ok show ?thesis by (simp add: leaves_ok_iff)
  next
    case False
    with b st(3) have "b = length s" by simp
    with st(4) v show ?thesis by (auto simp: new_cell_def split: if_splits)
  qed
qed

lemma walk_leaves_ok:
  "leaves_ok od s \<Longrightarrow> walk od len s c i ks = (r, s') \<Longrightarrow> leaves_ok od s'"
proof (induction ks arbitrary: s c i)
  case Nil
  then show ?case by simp
next
  case (Cons key rest)
  show ?case
  proof (cases "subscript s c key")
    case (Got c')
    with Cons show ?thesis by simp
  next
    case (Missing a es)
    let ?s1 = "(s @ [new_cell od i len])[a := Dict (AList.update (num_val key) (length s) es)]"
    from Cons.prems(2) have "walk od len ?s1 (Ref (length s)) (Suc i) rest = (r, s')"
      by (simp only: walk_Missing [OF Missing])
    from Cons.IH [OF missing_step_leaves_ok [OF Missing Cons.prems(1) refl] this]
    show ?thesis .
  next
    case (Raised e)
    with Cons.prems show ?thesis by simp
  qed
qed

lemma tree_inv_childD:
  assumes "tree_inv rt s P" and "d < length s" and "s ! d = Dict es" and "(k, b) \<in> set es"
  shows "b < length s \<and> P b = P d @ [k]"
proof -
  from assms(1) have "\<forall>d<length s. \<forall>es. s ! d = Dict es \<longrightarrow>
      (\<forall>(k, b)\<in>set es. b < length s \<and> P b = P d @ [k])"
    by (simp add: tree_inv_def)
  with assms(2,3) have "\<forall>(k, b)\<in>set es. b < length s \<and> P b = P d @ [k]"
    by blast
  with assms(4) show ?thesis by auto
qed

lemma missing_step_tree_inv:
  assumes that: "ob = Dict [] \<or> (\<exists>xs. ob = Vec xs)"
    and m: "subscript s c key = Missing a es" and t: "tree_inv rt s P"
    and s1: "s1 = (s @ [ob])[a := Dict (AList.update (num_val key) (length s) es)]"
  shows "tree_inv rt s1 (P(length s := P a @ [num_val key]))"
    (is "tree_inv rt s1 ?P1")
proof -
  note st = missing_step [OF m s1]
  from subscript_MissingD [OF m] have a: "a < length s" and d: "s ! a = Dict es"
    and mo: "map_of es (num_val key) = None" by simp_all
  from t have rt: "rt < length s" and rd: "\<exists>es. s ! rt = Dict es" and pr: "P rt = []"
    by (simp_all add: tree_inv_def)
  note ch = tree_inv_childD [OF t]
  have old: "?P1 b = P b" if "b < length s" for b using that by simp
  show ?thesis
    unfolding tree_inv_def
  proof (intro conjI allI impI ballI)
    show "rt < length s1" using rt st(3) by simp
    show "\<exists>es. s1 ! rt = Dict es"
      using rd st(5) [OF rt] st(6) by (cases "rt = a") auto
    show "?P1 rt = []" using rt pr by simp
  next
    fix d0 es0 x
    assume d0: "d0 < length s1" and e0: "s1 ! d0 = Dict es0" and x: "x \<in> set es0"
    obtain k b where xk: "x = (k, b)" by (cases x)
    have "b < length s1 \<and> ?P1 b = ?P1 d0 @ [k]"
    proof (cases "d0 = a")
      case True
      with e0 st(6) have "es0 = AList.update (num_val key) (length s) es" by simp
      with x xk set_update_absent [OF mo] have
        "(k, b) = (num_val key, length s) \<or> (k, b) \<in> set es" by auto
      then show ?thesis
      proof
        assume "(k, b) = (num_val key, length s)"
        with True a st(3) show ?thesis by simp
      next
        assume "(k, b) \<in> set es"
        from ch [OF a d this] True a st(3) show ?thesis by simp
      qed
    next
      case False
      show ?thesis
      proof (cases "d0 < length s")
        case True
        from st(5) [OF True False] e0 have "s ! d0 = Dict es0" by simp
        from ch [OF True this] x xk have "b < length s \<and> P b = P d0 @ [k]" by blast
        with True st(3) show ?thesis by simp
      next
        case False
        with d0 st(3) have "d0 = length s" by simp
        with st(4) e0 that x show ?thesis by auto
      qed
    qed
    with xk show "case x of (k, b) \<Rightarrow> b < length s1 \<and> ?P1 b = ?P1 d0 @ [k]" by simp
  qed
qed

lemma new_cell_kind: "new_cell od i len = Dict [] \<or> (\<exists>xs. new_cell od i len = Vec xs)"
  by (simp add: new_cell_def)

lemma walk_tree_inv:
  "tree_inv rt s P \<Longrightarrow> walk od len s c i ks = (r, s') \<Longrightarrow> \<exists>P'. tree_inv rt s' P'"
proof (induction ks arbitrary: s c i P)
  case Nil
  then show ?case by auto
next
  case (Cons key rest)
  show ?case
  proof (cases "subscript s c key")
    case (Got c')
    with Cons show ?thesis by simp
  next
    case (Missing a es)
    let ?s1 = "(s @ [new_cell od i len])[a := Dict (AList.update (num_val key) (length s) es)]"
    from Cons.prems(2) have "walk od len ?s1 (Ref (length s)) (Suc i) rest = (r, s')"
      by (simp only: walk_Missing [OF Missing])
    from Cons.IH [OF missing_step_tree_inv [OF new_cell_kind Missing Cons.prems(1) refl] this]
    show ?thesis .
  next
    case (Raised e)
    with Cons.prems show ?thesis by auto
  qed
qed

lemma tree_inv_reach:
  "tree_inv rt s P \<Longrightarrow> c < length s \<Longrightarrow> reach s (Ref c) ks = Some (Ref a) \<Longrightarrow>
     a < length s \<and> P a = P c @ map num_val ks"
proof (induction ks arbitrary: c)
  case Nil
  then show ?case by simp
next
  case (Cons key rest)
  from Cons.prems(3) obtain c' where g: "subscript s (Ref c) key = Got c'"
    and r: "reach s c' rest = Some (Ref a)"
    by (auto split: subscript_result.splits)
  from reach_Ref_start [OF r] obtain b where c': "c' = Ref b" by blast
  from subscript_Got_RefD [OF g [unfolded c']] obtain es where
    d: "s ! c = Dict es" and m: "map_of es (num_val key) = Some b" by auto
  from m have "(num_val key, b) \<in> set es" by (rule map_of_SomeD)
  from tree_inv_childD [OF Cons.prems(1,2) d this]
  have b: "b < length s" and pb: "P b = P c @ [num_val key]" by simp_all
  from Cons.IH [OF Cons.prems(1) b r [unfolded c']] pb show ?case by simp
qed

lemma write_item_SomeD:
  "write_item s r a x = Some s' \<Longrightarrow>
     \<exists>xs. r < length s \<and> s ! r = Vec xs \<and> a < length xs \<and> s' = s[r := Vec (xs[a := x])]"
  by (auto simp: write_item_def split: if_splits obj.splits)

lemma write_item_store_le: "write_item s r a x = Some s' \<Longrightarrow> store_le s s'"
  by (auto dest!: write_item_SomeD simp: store_le_def nth_list_update)

lemma write_item_leaves_ok: "write_item s r a x = Some s' \<Longrightarrow> leaves_ok od s \<Longrightarrow> leaves_ok od s'"
  by (auto dest!: write_item_SomeD simp: leaves_ok_iff nth_list_update split: if_splits)

lemma write_item_tree_inv:
  assumes "write_item s r a x = Some s'" and "tree_inv rt s P"
  shows "tree_inv rt s' P"
proof -
  from write_item_SomeD [OF assms(1)] obtain xs where r: "r < length s" and v: "s ! r = Vec xs"
    and s': "s' = s[r := Vec (xs[a := x])]" by blast
  have same: "s' ! d = Dict es \<longleftrightarrow> s ! d = Dict es" if "d < length s" for d es
    using that v r by (cases "d = r") (auto simp: s')
  have l: "length s' = length s" by (simp add: s')
  from assms(2) show ?thesis
    unfolding tree_inv_def l by (simp add: same)
qed


lemma walk_vec_same:
  "walk od len s c i ks = (r, s') \<Longrightarrow> a < length s \<Longrightarrow> s ! a = Vec xs \<Longrightarrow> s' ! a = Vec xs"
proof (induction ks arbitrary: s c i)
  case Nil
  then show ?case by simp
next
  case (Cons key rest)
  show ?case
  proof (cases "subscript s c key")
    case (Got c')
    with Cons show ?thesis by simp
  next
    case (Missing a0 es)
    let ?s1 = "(s @ [new_cell od i len])[a0 := Dict (AList.update (num_val key) (length s) es)]"
    note st = missing_step [OF Missing refl [of ?s1]]
    from Cons.prems(1) have w: "walk od len ?s1 (Ref (length s)) (Suc i) rest = (r, s')"
      by (simp only: walk_Missing [OF Missing])
    from subscript_MissingD [OF Missing] Cons.prems(3) have "a \<noteq> a0" by auto
    with st(5) [OF Cons.prems(2)] Cons.prems(3) have "?s1 ! a = Vec xs" by simp
    moreover from st(3) Cons.prems(2) have "a < length ?s1" by simp
    ultimately show ?thesis using Cons.IH [OF w] by blast
  next
    case (Raised e)
    with Cons.prems show ?thesis by simp
  qed
qed

lemma od_get_cases:
  obtains (raised) e where "keys_of od obs = Inl e" and "od_get od s obs = (Inl e, s)"
  | (walked) ks where "keys_of od obs = Inr ks"
      and "od_get od s obs = walk od (length ks) s (Ref (table od)) 0 ks"
proof (cases "keys_of od obs")
  case (Inl e)
  with od_get_keys_of_Inl [OF Inl] raised show ?thesis by blast
next
  case (Inr ks)
  with od_get_keys_of [OF Inr] walked show ?thesis by blast
qed

lemma od_get_store_le: "od_get od s obs = (r, s') \<Longrightarrow> store_le s s'"
  by (cases rule: od_get_cases [of od obs s]) (auto simp: store_le_refl dest: walk_store_le)

lemma od_get_leaves_ok: "leaves_ok od s \<Longrightarrow> od_get od s obs = (r, s') \<Longrightarrow> leaves_ok od s'"
  by (cases rule: od_get_cases [of od obs s]) (auto dest: walk_leaves_ok)

lemma od_get_tree_inv:
  "tree_inv rt s P \<Longrightarrow> od_get od s obs = (r, s') \<Longrightarrow> \<exists>P'. tree_inv rt s' P'"
  by (cases rule: od_get_cases [of od obs s]) (auto dest: walk_tree_inv)

lemma od_get_vec_same:
  "od_get od s obs = (r, s') \<Longrightarrow> a < length s \<Longrightarrow> s ! a = Vec xs \<Longrightarrow> s' ! a = Vec xs"
  by (cases rule: od_get_cases [of od obs s]) (auto dest: walk_vec_same)

lemma od_get_reach:
  "od_get od s obs = (Inr (Ref a), s') \<Longrightarrow> keys_of od obs = Inr ks \<Longrightarrow>
     reach s' (Ref (table od)) ks = Some (Ref a)"
  by (simp add: od_get_keys_of walk_reach)

lemma reach_od_get:
  "keys_of od obs = Inr ks \<Longrightarrow> reach s (Ref (table od)) ks = Some c \<Longrightarrow>
     od_get od s obs = (Inr c, s)"
  by (simp add: od_get_keys_of reach_walk)

lemma fresh_inv:
  "ObservationDict_init iv na b = (od, s) \<Longrightarrow>
     s = [Dict []] \<and> table od = 0 \<and> init_value od = iv \<and> n_actions od = na \<and> bucketer od = b"
  by (auto simp: ObservationDict_init_def)

lemma reachable_inv: "reachable od s \<Longrightarrow> leaves_ok od s \<and> (\<exists>P. tree_inv (table od) s P)"
proof (induction rule: reachable.induct)
  case (fresh iv na b od s)
  from fresh_inv [OF fresh] have s: "s = [Dict []]" and t: "table od = 0" by simp_all
  have "tree_inv 0 [Dict []] (\<lambda>_. [])" by (simp add: tree_inv_def)
  with s t show ?case by (auto simp: leaves_ok_def)
next
  case (after_get od s observation r s')
  from after_get.IH obtain P where l: "leaves_ok od s" and t: "tree_inv (table od) s P" by blast
  from od_get_leaves_ok [OF l after_get.hyps(2)] od_get_tree_inv [OF t after_get.hyps(2)]
  show ?case by blast
next
  case (after_write od s r a x s')
  from after_write.IH obtain P where l: "leaves_ok od s" and t: "tree_inv (table od) s P" by blast
  from write_item_leaves_ok [OF after_write.hyps(2) l] write_item_tree_inv [OF after_write.hyps(2) t]
  show ?case by blast
qed

lemma reachable_reach:
  assumes "reachable od s" and "reach s (Ref (table od)) ks = Some (Ref a)"
  shows "a < length s"
proof -
  from reachable_inv [OF assms(1)] obtain P where t: "tree_inv (table od) s P" by blast
  then have "table od < length s" by (simp add: tree_inv_def)
  from tree_inv_reach [OF t this assms(2)] show ?thesis by simp
qed

lemma reachable_distinct:
  assumes "reachable od s" and "reach s (Ref (table od)) ks1 = Some (Ref a1)"
    and "reach s (Ref (table od)) ks2 = Some (Ref a2)"
    and "map num_val ks1 \<noteq> map num_val ks2"
  shows "a1 \<noteq> a2"
proof -
  from reachable_inv [OF assms(1)] obtain P where t: "tree_inv (table od) s P" by blast
  then have r: "table od < length s" and p: "P (table od) = []" by (simp_all add: tree_inv_def)
  from tree_inv_reach [OF t r assms(2)] p have "P a1 = map num_val ks1" by simp
  moreover from tree_inv_reach [OF t r assms(3)] p have "P a2 = map num_val ks2" by simp
  ultimately show ?thesis using assms(4) by auto
qed

lemma walk_fresh_chain:
  "ks \<noteq> [] \<Longrightarrow> i + length ks = len \<Longrightarrow>
   walk od len (s0 @ [Dict []]) (Ref (length s0)) i ks =
     (Inr (Ref (length s0 + length ks)),
      s0 @ chain (length s0) ks @ [Vec (replicate (n_actions od) (init_value od))])"
proof (induction ks arbitrary: s0 i)
  case Nil
  then show ?case by simp
next
  case (Cons key rest)
  have m: "subscript (s0 @ [Dict []]) (Ref (length s0)) key = Missing (length s0) []"
    by simp
  have s1: "((s0 @ [Dict []]) @ [ob])[length s0 := Dict (AList.update (num_val key) (length (s0 @ [Dict []])) [])]
      = (s0 @ [Dict [(num_val key, Suc (length s0))]]) @ [ob]" for ob
    by (simp add: list_update_append)
  have w: "walk od len (s0 @ [Dict []]) (Ref (length s0)) i (key # rest) =
      walk od len ((s0 @ [Dict [(num_val key, Suc (length s0))]]) @ [new_cell od i len])
        (Ref (Suc (length s0))) (Suc i) rest"
    unfolding walk_Missing [OF m] s1 by simp
  show ?case
  proof (cases "rest = []")
    case True
    with Cons.prems(2) have "new_cell od i len = Vec (replicate (n_actions od) (init_value od))"
      by (auto simp: new_cell_def)
    with True w show ?thesis by simp
  next
    case False
    with Cons.prems(2) have n: "new_cell od i len = Dict []"
      by (cases rest) (auto simp: new_cell_def)
    from Cons.prems(2) have "Suc i + length rest = len" by simp
    from Cons.IH [OF False this, of "s0 @ [Dict [(num_val key, Suc (length s0))]]"] w n
    show ?thesis by simp
  qed
qed

section \<open>ObservationDict: keys of one length\<close>

lemma depth_inv_VecD:
  "depth_inv od k s H \<Longrightarrow> d < length s \<Longrightarrow> s ! d = Vec xs \<Longrightarrow>
     H d = 0 \<and> length xs = n_actions od"
  by (simp add: depth_inv_def)

lemma depth_inv_DictD:
  assumes "depth_inv od k s H" and "d < length s" and "s ! d = Dict es"
  shows "0 < H d" and "(key, b) \<in> set es \<Longrightarrow> b < length s \<and> Suc (H b) = H d"
proof -
  from assms have *: "0 < H d \<and> (\<forall>(key, b)\<in>set es. b < length s \<and> Suc (H b) = H d)"
    by (simp add: depth_inv_def)
  then show "0 < H d" by simp
  from * show "(key, b) \<in> set es \<Longrightarrow> b < length s \<and> Suc (H b) = H d" by auto
qed

lemma depth_inv_leaf:
  assumes "depth_inv od k s H" and "a < length s" and "H a = 0"
  shows "\<exists>xs. s ! a = Vec xs \<and> length xs = n_actions od"
proof (cases "s ! a")
  case (Dict es)
  from depth_inv_DictD(1) [OF assms(1,2) Dict] assms(3) show ?thesis by simp
next
  case (Vec xs)
  with depth_inv_VecD [OF assms(1,2) Vec] show ?thesis by simp
qed

lemma depth_inv_mapping:
  assumes "depth_inv od k s H" and "a < length s" and "0 < H a"
  shows "\<exists>es. s ! a = Dict es"
proof (cases "s ! a")
  case (Dict es)
  then show ?thesis by simp
next
  case (Vec xs)
  from depth_inv_VecD [OF assms(1,2) Vec] assms(3) show ?thesis by simp
qed

lemma missing_step_depth_inv:
  assumes m: "subscript s c key = Missing a es" and t: "depth_inv od k s H"
    and h: "H a = Suc h"
    and ob: "ob = (if h = 0 then Vec (replicate (n_actions od) (init_value od)) else Dict [])"
    and s1: "s1 = (s @ [ob])[a := Dict (AList.update (num_val key) (length s) es)]"
  shows "depth_inv od k s1 (H(length s := h))" (is "depth_inv od k s1 ?H1")
proof -
  note st = missing_step [OF m s1]
  from subscript_MissingD [OF m] have a: "a < length s" and d: "s ! a = Dict es"
    and mo: "map_of es (num_val key) = None" by simp_all
  from t have rt: "table od < length s" and hr: "H (table od) = k"
    by (simp_all add: depth_inv_def)
  show ?thesis
    unfolding depth_inv_def
  proof (intro conjI allI impI ballI)
    show "table od < length s1" using rt st(3) by simp
    show "?H1 (table od) = k" using rt hr by simp
  next
    fix d0 xs assume d0: "d0 < length s1" and v: "s1 ! d0 = Vec xs"
    from v st(6) have ne: "d0 \<noteq> a" by auto
    have "?H1 d0 = 0 \<and> length xs = n_actions od"
    proof (cases "d0 < length s")
      case True
      from st(5) [OF True ne] v have "s ! d0 = Vec xs" by simp
      from depth_inv_VecD [OF t True this] True show ?thesis by simp
    next
      case False
      with d0 st(3) have e: "d0 = length s" by simp
      with st(4) v ob show ?thesis by (auto split: if_splits)
    qed
    then show "?H1 d0 = 0" and "length xs = n_actions od" by simp_all
  next
    fix d0 es0 assume d0: "d0 < length s1" and e0: "s1 ! d0 = Dict es0"
    show "0 < ?H1 d0"
    proof (cases "d0 < length s")
      case True
      show ?thesis
      proof (cases "d0 = a")
        case True
        with h a show ?thesis by simp
      next
        case False
        from st(5) [OF True False] e0 have "s ! d0 = Dict es0" by simp
        from depth_inv_DictD(1) [OF t True this] True show ?thesis by simp
      qed
    next
      case False
      with d0 st(3) have e: "d0 = length s" by simp
      with st(4) e0 ob show ?thesis by (auto split: if_splits)
    qed
  next
    fix d0 es0 x assume d0: "d0 < length s1" and e0: "s1 ! d0 = Dict es0" and x: "x \<in> set es0"
    obtain ky b where xk: "x = (ky, b)" by (cases x)
    have "b < length s1 \<and> Suc (?H1 b) = ?H1 d0"
    proof (cases "d0 = a")
      case True
      with e0 st(6) have "es0 = AList.update (num_val key) (length s) es" by simp
      with x xk set_update_absent [OF mo] have
        "(ky, b) = (num_val key, length s) \<or> (ky, b) \<in> set es" by auto
      then show ?thesis
      proof
        assume "(ky, b) = (num_val key, length s)"
        with True a h st(3) show ?thesis by simp
      next
        assume "(ky, b) \<in> set es"
        from depth_inv_DictD(2) [OF t a d this] True a st(3) show ?thesis by simp
      qed
    next
      case False
      show ?thesis
      proof (cases "d0 < length s")
        case True
        from st(5) [OF True False] e0 have e: "s ! d0 = Dict es0" by simp
        from x xk have "(ky, b) \<in> set es0" by simp
        from depth_inv_DictD(2) [OF t True e this] True st(3) show ?thesis by simp
      next
        case False
        with d0 st(3) have "d0 = length s" by simp
        with st(4) e0 ob x show ?thesis by (auto split: if_splits)
      qed
    qed
    with xk show "case x of (key, b) \<Rightarrow> b < length s1 \<and> Suc (?H1 b) = ?H1 d0" by simp
  qed
qed

lemma new_cell_last:
  "i + Suc h = len \<Longrightarrow>
     new_cell od i len = (if h = 0 then Vec (replicate (n_actions od) (init_value od)) else Dict [])"
  by (auto simp: new_cell_def)

lemma walk_depth_inv:
  "depth_inv od k s H \<Longrightarrow> c < length s \<Longrightarrow> H c = length ks \<Longrightarrow> i + length ks = len \<Longrightarrow>
     \<exists>a s' H'. walk od len s (Ref c) i ks = (Inr (Ref a), s') \<and> a < length s' \<and> H' a = 0 \<and>
        depth_inv od k s' H'"
proof (induction ks arbitrary: s c i H)
  case Nil
  then show ?case by auto
next
  case (Cons key rest)
  from Cons.prems(3) have hc: "H c = Suc (length rest)" by simp
  then have "0 < H c" by simp
  from depth_inv_mapping [OF Cons.prems(1,2) this] obtain es where d: "s ! c = Dict es" by blast
  from Cons.prems(4) have i': "Suc i + length rest = len" by simp
  show ?case
  proof (cases "map_of es (num_val key)")
    case (Some b)
    then have "(num_val key, b) \<in> set es" by (rule map_of_SomeD)
    from depth_inv_DictD(2) [OF Cons.prems(1,2) d this] hc
    have b: "b < length s" and hb: "H b = length rest" by simp_all
    from Some d Cons.prems(2) have "subscript s (Ref c) key = Got (Ref b)" by simp
    then have "walk od len s (Ref c) i (key # rest) = walk od len s (Ref b) (Suc i) rest"
      by simp
    with Cons.IH [OF Cons.prems(1) b hb i'] show ?thesis by simp
  next
    case None
    with d Cons.prems(2) have m: "subscript s (Ref c) key = Missing c es" by simp
    let ?s1 = "(s @ [new_cell od i len])[c := Dict (AList.update (num_val key) (length s) es)]"
    let ?H1 = "H(length s := length rest)"
    from Cons.prems(4) have "i + Suc (length rest) = len" by simp
    note nc = new_cell_last [OF this, of od]
    have inv1: "depth_inv od k ?s1 ?H1"
      by (rule missing_step_depth_inv [OF m Cons.prems(1) hc nc refl])
    have l1: "length s < length ?s1" by simp
    have h1: "?H1 (length s) = length rest" by simp
    from Cons.IH [OF inv1 l1 h1 i'] walk_Missing [OF m, of od len i rest]
    show ?thesis by simp
  qed
qed

lemma uniform_reachable: "uniform k od s \<Longrightarrow> reachable od s"
  by (induction rule: uniform.induct) (blast intro: reachable.intros)+

lemma write_item_depth_inv:
  assumes "write_item s r a x = Some s'" and "depth_inv od k s H"
  shows "depth_inv od k s' H"
proof -
  from write_item_SomeD [OF assms(1)] obtain xs where r: "r < length s" and v: "s ! r = Vec xs"
    and s': "s' = s[r := Vec (xs[a := x])]" by blast
  have l: "length s' = length s" by (simp add: s')
  have dict: "s' ! d = Dict es \<longleftrightarrow> s ! d = Dict es" if "d < length s" for d es
    using that v r by (cases "d = r") (auto simp: s')
  have vec: "\<exists>ys. s ! d = Vec ys \<and> length ys = length zs" if "d < length s" "s' ! d = Vec zs" for d zs
    using that v r by (cases "d = r") (auto simp: s')
  show ?thesis
    unfolding depth_inv_def l
  proof (intro conjI allI impI)
    from assms(2) show "table od < length s" "H (table od) = k" by (simp_all add: depth_inv_def)
  next
    fix d zs assume d: "d < length s" and z: "s' ! d = Vec zs"
    from vec [OF d z] obtain ys where "s ! d = Vec ys" "length ys = length zs" by blast
    with depth_inv_VecD [OF assms(2) d] show "H d = 0" "length zs = n_actions od" by auto
  next
    fix d es assume d: "d < length s" and e: "s' ! d = Dict es"
    with dict have e': "s ! d = Dict es" by simp
    from depth_inv_DictD(1) [OF assms(2) d e'] show "0 < H d" .
    from depth_inv_DictD(2) [OF assms(2) d e']
    show "\<forall>(key, b)\<in>set es. b < length s \<and> Suc (H b) = H d" by auto
  qed
qed

lemma uniform_depth_inv: "uniform k od s \<Longrightarrow> 0 < k \<Longrightarrow> \<exists>H. depth_inv od k s H"
proof (induction rule: uniform.induct)
  case (u_fresh iv na b od s k)
  from fresh_inv [OF u_fresh(1)] have s: "s = [Dict []]" and t: "table od = 0" by simp_all
  from u_fresh(2) have "depth_inv od k [Dict []] (\<lambda>_. k)"
    by (simp add: depth_inv_def t)
  with s show ?case by blast
next
  case (u_get k od s observation ks r s')
  from u_get.IH [OF u_get.prems] obtain H where inv: "depth_inv od k s H" by blast
  then have rt: "table od < length s" and hr: "H (table od) = length ks"
    using u_get.hyps(3) by (simp_all add: depth_inv_def)
  from walk_depth_inv [OF inv rt hr, of 0 "length ks"] od_get_keys_of [OF u_get.hyps(2), of s]
    u_get.hyps(4)
  show ?case by auto
next
  case (u_write k od s r a x s')
  from u_write.IH [OF u_write.prems] obtain H where "depth_inv od k s H" by blast
  from write_item_depth_inv [OF u_write.hyps(2) this] show ?case by blast
qed

lemma uniform_get_leaf:
  assumes "uniform k od s" and "0 < k" and "keys_of od obs = Inr ks" and "length ks = k"
  shows "\<exists>a s' xs. od_get od s obs = (Inr (Ref a), s') \<and> a < length s' \<and>
           s' ! a = Vec xs \<and> length xs = n_actions od"
proof -
  from uniform_depth_inv [OF assms(1,2)] obtain H where inv: "depth_inv od k s H" by blast
  then have rt: "table od < length s" and hr: "H (table od) = length ks"
    using assms(4) by (simp_all add: depth_inv_def)
  from walk_depth_inv [OF inv rt hr, of 0 "length ks"] obtain a s' H' where
    w: "walk od (length ks) s (Ref (table od)) 0 ks = (Inr (Ref a), s')"
    and a: "a < length s'" and h: "H' a = 0" and inv': "depth_inv od k s' H'"
    by auto
  from depth_inv_leaf [OF inv' a h] obtain xs where "s' ! a = Vec xs" "length xs = n_actions od"
    by blast
  with w a od_get_keys_of [OF assms(3), of s] show ?thesis by simp
qed


section \<open>A small table\<close>

lemma example_fresh:
  "ObservationDict_init 0 2 None =
     (\<lparr>table = 0, init_value = 0, n_actions = 2, bucketer = None\<rparr>, [Dict []])"
  by (simp add: ObservationDict_init_def)

lemma example_reachable:
  "reachable \<lparr>table = 0, init_value = 0, n_actions = 2, bucketer = None\<rparr> [Dict []]"
  by (rule fresh [OF example_fresh])

lemma example_get1:
  "od_get \<lparr>table = 0, init_value = 0, n_actions = 2, bucketer = None\<rparr> [Dict []] [PyInt 1] =
     (Inr (Ref 1), [Dict [(1, 1)], Vec [0, 0]])"
  by (simp add: od_get_def new_cell_def numeral_2_eq_2)

lemma example_get2:
  "od_get \<lparr>table = 0, init_value = 0, n_actions = 2, bucketer = None\<rparr>
     [Dict [(1, 1)], Vec [0, 0]] [PyInt 2] =
     (Inr (Ref 2), [Dict [(1, 1), (2, 2)], Vec [0, 0], Vec [0, 0]])"
  by (simp add: od_get_def new_cell_def numeral_2_eq_2)

lemma example_get12:
  "od_get \<lparr>table = 0, init_value = 0, n_actions = 2, bucketer = None\<rparr> [Dict []]
     [PyInt 1, PyInt 2] =
     (Inr (Ref 2), [Dict [(1, 1)], Dict [(2, 2)], Vec [0, 0]])"
  by (simp add: od_get_def new_cell_def numeral_2_eq_2)

lemma example_keys:
  "keys_of \<lparr>table = 0, init_value = 0, n_actions = 2, bucketer = None\<rparr> obs = Inr obs"
  by (simp add: keys_of_def)

lemma example_uniform:
  "uniform k \<lparr>table = 0, init_value = 0, n_actions = 2, bucketer = None\<rparr> [Dict []]"
  by (rule u_fresh [OF example_fresh])

section \<open>MultiBucketer and ObservationDict: the claims\<close>

text \<open>
  C9. A MultiBucketer built with \<open>n_buckets > 0\<close>, given a vector of its own length
  \<open>n\<close>, returns \<open>n\<close> buckets, the \<open>i\<close>-th being what the Bucketer of the \<open>i\<close>-th pair of
  bounds returns for the \<open>i\<close>-th value. The one built from the bounds \<open>(0, 10)\<close> and
  \<open>(-5, 5)\<close> with \<open>5\<close> buckets maps \<open>[2.0, 0.0]\<close> to \<open>[1, b]\<close>, \<open>b\<close> the bucket of \<open>0.0\<close>
  under the Bucketer with bounds \<open>(-5, 5)\<close> and \<open>5\<close> buckets.
\<close>

theorem mb_get_bucketed_coordinatewise:
  assumes "MultiBucketer_init lowers uppers nb = Inr mb" and "0 < nb" and "length vs = mb_n mb"
  shows "(\<exists>out. mb_get_bucketed mb vs = Inr out \<and> length out = mb_n mb \<and>
            (\<forall>i<mb_n mb. get_bucketed
                \<lparr>lower_bound = lowers ! i, upper_bound = uppers ! i, n_buckets = nb\<rparr> (vs ! i)
                  = Inr (out ! i))) \<and>
         (\<exists>mb' b. MultiBucketer_init [0, - 5] [10, 5] 5 = Inr mb' \<and>
            get_bucketed \<lparr>lower_bound = - 5, upper_bound = 5, n_buckets = 5\<rparr> 0.0 = Inr b \<and>
            mb_get_bucketed mb' [2.0, 0.0] = Inr [1, b])"
proof
  note i = MultiBucketer_init_Inr [OF assms(1)]
  from i(5) assms(2) have "\<forall>bk\<in>set (bucketers mb). 0 < n_buckets bk" by simp
  from mb_get_bucketed_zip [OF this, of vs] obtain out where
    o: "mb_get_bucketed mb vs = Inr out"
    and l: "length out = min (length (bucketers mb)) (length vs)"
    and e: "\<forall>i<length out. get_bucketed (bucketers mb ! i) (vs ! i) = Inr (out ! i)"
    by blast
  from l i(2,3) assms(3) have l': "length out = mb_n mb" by simp
  have "get_bucketed \<lparr>lower_bound = lowers ! j, upper_bound = uppers ! j, n_buckets = nb\<rparr> (vs ! j)
          = Inr (out ! j)" if "j < mb_n mb" for j
  proof -
    from that i(2) have jl: "j < length lowers" by simp
    from e l' that have "get_bucketed (bucketers mb ! j) (vs ! j) = Inr (out ! j)" by simp
    then show ?thesis by (simp only: i(4) [OF jl])
  qed
  with o l' show "\<exists>out. mb_get_bucketed mb vs = Inr out \<and> length out = mb_n mb \<and>
      (\<forall>i<mb_n mb. get_bucketed
          \<lparr>lower_bound = lowers ! i, upper_bound = uppers ! i, n_buckets = nb\<rparr> (vs ! i)
            = Inr (out ! i))"
    by blast
next
  have "get_bucketed \<lparr>lower_bound = - 5, upper_bound = 5, n_buckets = 5\<rparr> 0.0 = Inr 2"
    by (simp add: bucket_eval)
  moreover have "mb_get_bucketed \<lparr>mb_n = 2, mb_n_buckets = 5, bucketers =
        [\<lparr>lower_bound = 0, upper_bound = 10, n_buckets = 5\<rparr>,
         \<lparr>lower_bound = - 5, upper_bound = 5, n_buckets = 5\<rparr>]\<rparr> [2.0, 0.0] = Inr [1, 2]"
    by (simp add: bucket_eval)
  ultimately show "\<exists>mb' b. MultiBucketer_init [0, - 5] [10, 5] 5 = Inr mb' \<and>
      get_bucketed \<lparr>lower_bound = - 5, upper_bound = 5, n_buckets = 5\<rparr> 0.0 = Inr b \<and>
      mb_get_bucketed mb' [2.0, 0.0] = Inr [1, b]"
    using example_init by blast
qed

theorem mb_get_bucketed_coordinatewise_witness:
  "MultiBucketer_init [0, - 5] [10, 5] 5 = Inr \<lparr>mb_n = 2, mb_n_buckets = 5, bucketers =
        [\<lparr>lower_bound = 0, upper_bound = 10, n_buckets = 5\<rparr>,
         \<lparr>lower_bound = - 5, upper_bound = 5, n_buckets = 5\<rparr>]\<rparr> \<and> (0::int) < 5 \<and>
   length [7, 4 :: real] = mb_n \<lparr>mb_n = 2, mb_n_buckets = 5, bucketers =
        [\<lparr>lower_bound = 0, upper_bound = 10, n_buckets = 5\<rparr>,
         \<lparr>lower_bound = - 5, upper_bound = 5, n_buckets = 5\<rparr>]\<rparr> \<and>
   (\<exists>out. mb_get_bucketed \<lparr>mb_n = 2, mb_n_buckets = 5, bucketers =
        [\<lparr>lower_bound = 0, upper_bound = 10, n_buckets = 5\<rparr>,
         \<lparr>lower_bound = - 5, upper_bound = 5, n_buckets = 5\<rparr>]\<rparr> [7, 4] = Inr out \<and> length out = 2 \<and>
      get_bucketed \<lparr>lower_bound = 0, upper_bound = 10, n_buckets = 5\<rparr> 7 = Inr (out ! 0) \<and>
      get_bucketed \<lparr>lower_bound = - 5, upper_bound = 5, n_buckets = 5\<rparr> 4 = Inr (out ! 1))"
proof -
  have h: "(0::int) < 5" "length [7, 4 :: real] = mb_n \<lparr>mb_n = 2, mb_n_buckets = 5, bucketers =
        [\<lparr>lower_bound = 0, upper_bound = 10, n_buckets = 5\<rparr>,
         \<lparr>lower_bound = - 5, upper_bound = 5, n_buckets = 5\<rparr>]\<rparr>" by simp_all
  from mb_get_bucketed_coordinatewise [OF example_init h, THEN conjunct1]
  obtain out where o: "mb_get_bucketed \<lparr>mb_n = 2, mb_n_buckets = 5, bucketers =
        [\<lparr>lower_bound = 0, upper_bound = 10, n_buckets = 5\<rparr>,
         \<lparr>lower_bound = - 5, upper_bound = 5, n_buckets = 5\<rparr>]\<rparr> [7, 4] = Inr out" and l: "length out = mb_n \<lparr>mb_n = 2, mb_n_buckets = 5, bucketers =
        [\<lparr>lower_bound = 0, upper_bound = 10, n_buckets = 5\<rparr>,
         \<lparr>lower_bound = - 5, upper_bound = 5, n_buckets = 5\<rparr>]\<rparr>"
    and e: "\<forall>i<mb_n \<lparr>mb_n = 2, mb_n_buckets = 5, bucketers =
        [\<lparr>lower_bound = 0, upper_bound = 10, n_buckets = 5\<rparr>,
         \<lparr>lower_bound = - 5, upper_bound = 5, n_buckets = 5\<rparr>]\<rparr>. get_bucketed
        \<lparr>lower_bound = [0, - 5] ! i, upper_bound = [10, 5] ! i, n_buckets = 5\<rparr> ([7, 4] ! i)
          = Inr (out ! i)"
    by blast
  from e [rule_format, of 0] e [rule_format, of 1]
  have "get_bucketed \<lparr>lower_bound = 0, upper_bound = 10, n_buckets = 5\<rparr> 7 = Inr (out ! 0)"
    and "get_bucketed \<lparr>lower_bound = - 5, upper_bound = 5, n_buckets = 5\<rparr> 4 = Inr (out ! 1)"
    by simp_all
  with o l h example_init show ?thesis by simp
qed

text \<open>
  C3, as stated: a value vector whose length differs from the dimensionality makes
  the MultiBucketer, and a table configured with it, fail with an indexing fault.
  It does not: the two-dimensional MultiBucketer of the example returns one bucket
  for a vector of one value and two buckets for a vector of three, and the table
  creates a leaf under the one-coordinate key.
\<close>

theorem length_mismatch_counterexample:
  "mb_n \<lparr>mb_n = 2, mb_n_buckets = 5, bucketers =
        [\<lparr>lower_bound = 0, upper_bound = 10, n_buckets = 5\<rparr>,
         \<lparr>lower_bound = - 5, upper_bound = 5, n_buckets = 5\<rparr>]\<rparr> = 2 \<and>
   mb_get_bucketed \<lparr>mb_n = 2, mb_n_buckets = 5, bucketers =
        [\<lparr>lower_bound = 0, upper_bound = 10, n_buckets = 5\<rparr>,
         \<lparr>lower_bound = - 5, upper_bound = 5, n_buckets = 5\<rparr>]\<rparr> [2] = Inr [1] \<and>
   mb_get_bucketed \<lparr>mb_n = 2, mb_n_buckets = 5, bucketers =
        [\<lparr>lower_bound = 0, upper_bound = 10, n_buckets = 5\<rparr>,
         \<lparr>lower_bound = - 5, upper_bound = 5, n_buckets = 5\<rparr>]\<rparr> [2, 0, 7] = Inr [1, 2] \<and>
   od_get \<lparr>table = 0, init_value = 0, n_actions = 2, bucketer = Some \<lparr>mb_n = 2, mb_n_buckets = 5, bucketers =
        [\<lparr>lower_bound = 0, upper_bound = 10, n_buckets = 5\<rparr>,
         \<lparr>lower_bound = - 5, upper_bound = 5, n_buckets = 5\<rparr>]\<rparr>\<rparr>
      [Dict []] [PyFloat 2] = (Inr (Ref 1), [Dict [(1, 1)], Vec [0, 0]])"
  by (simp add: bucket_eval od_get_def new_cell_def numeral_2_eq_2)

text \<open>
  C3, amended. A MultiBucketer built with \<open>n_buckets > 0\<close> raises nothing for a value
  vector of any length \<open>m\<close>: pairing bucketers with values stops at the shorter
  sequence, so it returns the buckets of the first \<open>min n m\<close> coordinates, and a table
  configured with it walks exactly that key sequence.
\<close>

theorem mb_get_bucketed_truncates:
  assumes "MultiBucketer_init lowers uppers nb = Inr mb" and "0 < nb"
  shows "\<exists>out. mb_get_bucketed mb vs = Inr out \<and>
           length out = min (mb_n mb) (length vs) \<and>
           (\<forall>i<length out. get_bucketed (bucketers mb ! i) (vs ! i) = Inr (out ! i)) \<and>
           (\<forall>od s obs. bucketer od = Some mb \<and> map num_val obs = vs \<longrightarrow>
              od_get od s obs = walk od (length out) s (Ref (table od)) 0 (map PyInt out))"
proof -
  note i = MultiBucketer_init_Inr [OF assms(1)]
  from i(5) assms(2) have "\<forall>bk\<in>set (bucketers mb). 0 < n_buckets bk" by simp
  from mb_get_bucketed_zip [OF this, of vs] obtain out where
    o: "mb_get_bucketed mb vs = Inr out"
    and l: "length out = min (length (bucketers mb)) (length vs)"
    and e: "\<forall>i<length out. get_bucketed (bucketers mb ! i) (vs ! i) = Inr (out ! i)"
    by blast
  from l i(2,3) have l': "length out = min (mb_n mb) (length vs)" by simp
  have "od_get od s obs = walk od (length out) s (Ref (table od)) 0 (map PyInt out)"
    if "bucketer od = Some mb \<and> map num_val obs = vs" for od s obs
    using that o by (simp add: od_get_def)
  with o l' e show ?thesis by blast
qed

theorem mb_get_bucketed_truncates_witness:
  "MultiBucketer_init [0, - 5] [10, 5] 5 = Inr \<lparr>mb_n = 2, mb_n_buckets = 5, bucketers =
        [\<lparr>lower_bound = 0, upper_bound = 10, n_buckets = 5\<rparr>,
         \<lparr>lower_bound = - 5, upper_bound = 5, n_buckets = 5\<rparr>]\<rparr> \<and> (0::int) < 5 \<and>
   (\<exists>out. mb_get_bucketed \<lparr>mb_n = 2, mb_n_buckets = 5, bucketers =
        [\<lparr>lower_bound = 0, upper_bound = 10, n_buckets = 5\<rparr>,
         \<lparr>lower_bound = - 5, upper_bound = 5, n_buckets = 5\<rparr>]\<rparr> [2, 0, 7] = Inr out \<and> length out = 2)"
proof -
  have h: "(0::int) < 5" by simp
  from mb_get_bucketed_truncates [OF example_init h, of "[2, 0, 7]"]
  obtain out where "mb_get_bucketed \<lparr>mb_n = 2, mb_n_buckets = 5, bucketers =
        [\<lparr>lower_bound = 0, upper_bound = 10, n_buckets = 5\<rparr>,
         \<lparr>lower_bound = - 5, upper_bound = 5, n_buckets = 5\<rparr>]\<rparr> [2, 0, 7] = Inr out"
    and "length out = min (mb_n \<lparr>mb_n = 2, mb_n_buckets = 5, bucketers =
        [\<lparr>lower_bound = 0, upper_bound = 10, n_buckets = 5\<rparr>,
         \<lparr>lower_bound = - 5, upper_bound = 5, n_buckets = 5\<rparr>]\<rparr>) (length [2, 0, 7 :: real])" by blast
  with h example_init show ?thesis by simp
qed

lemma od_get_again:
  assumes "od_get od s obs = (Inr (Ref a), s1)"
  shows "od_get od s1 obs = (Inr (Ref a), s1)"
proof -
  from od_get_InrD [OF assms] obtain ks where ks: "keys_of od obs = Inr ks" by blast
  from od_get_reach [OF assms ks] have "reach s1 (Ref (table od)) ks = Some (Ref a)" .
  from reach_od_get [OF ks this] show ?thesis .
qed

text \<open>
  C5. When \<^verbatim>\<open>get(obs)\<close> returns a reference, a second \<^verbatim>\<open>get(obs)\<close> returns the same
  reference and leaves the store as it is: nothing is inserted anywhere. In a table
  asked only with keys of one length \<open>k \<ge> 1\<close>, \<^verbatim>\<open>get\<close> with such a key does return a
  reference, to a leaf of \<open>n_actions\<close> entries, and so does the second call.
\<close>

theorem get_twice_same:
  "(od_get od s obs = (Inr (Ref a), s1) \<longrightarrow> od_get od s1 obs = (Inr (Ref a), s1)) \<and>
   (uniform k od' s' \<and> 0 < k \<and> keys_of od' obs' = Inr ks \<and> length ks = k \<longrightarrow>
      (\<exists>a' s1' xs. od_get od' s' obs' = (Inr (Ref a'), s1') \<and> a' < length s1' \<and>
         s1' ! a' = Vec xs \<and> length xs = n_actions od' \<and>
         od_get od' s1' obs' = (Inr (Ref a'), s1')))"
proof (intro conjI impI)
  assume "od_get od s obs = (Inr (Ref a), s1)"
  then show "od_get od s1 obs = (Inr (Ref a), s1)" by (rule od_get_again)
next
  assume h: "uniform k od' s' \<and> 0 < k \<and> keys_of od' obs' = Inr ks \<and> length ks = k"
  then have u: "uniform k od' s'" and k: "0 < k" and ks: "keys_of od' obs' = Inr ks"
    and l: "length ks = k" by simp_all
  from uniform_get_leaf [OF u k ks l] obtain a' s1' xs where
    g: "od_get od' s' obs' = (Inr (Ref a'), s1')" and "a' < length s1'"
    and "s1' ! a' = Vec xs" and "length xs = n_actions od'" by blast
  with od_get_again [OF g]
  show "\<exists>a' s1' xs. od_get od' s' obs' = (Inr (Ref a'), s1') \<and> a' < length s1' \<and>
      s1' ! a' = Vec xs \<and> length xs = n_actions od' \<and>
      od_get od' s1' obs' = (Inr (Ref a'), s1')" by blast
qed

theorem get_twice_same_witness:
  "od_get \<lparr>table = 0, init_value = 0, n_actions = 2, bucketer = None\<rparr> [Dict []] [PyInt 1, PyInt 2] =
     (Inr (Ref 2), [Dict [(1, 1)], Dict [(2, 2)], Vec [0, 0]]) \<and>
   od_get \<lparr>table = 0, init_value = 0, n_actions = 2, bucketer = None\<rparr> [Dict [(1, 1)], Dict [(2, 2)], Vec [0, 0]] [PyInt 1, PyInt 2] =
     (Inr (Ref 2), [Dict [(1, 1)], Dict [(2, 2)], Vec [0, 0]]) \<and>
   uniform 2 \<lparr>table = 0, init_value = 0, n_actions = 2, bucketer = None\<rparr> [Dict []] \<and> (0::nat) < 2 \<and>
   keys_of \<lparr>table = 0, init_value = 0, n_actions = 2, bucketer = None\<rparr> [PyInt 1, PyInt 2] = Inr [PyInt 1, PyInt 2] \<and> length [PyInt 1, PyInt 2] = 2 \<and>
   (\<exists>a' s1' xs. od_get \<lparr>table = 0, init_value = 0, n_actions = 2, bucketer = None\<rparr> [Dict []] [PyInt 1, PyInt 2] = (Inr (Ref a'), s1') \<and>
      a' < length s1' \<and> s1' ! a' = Vec xs \<and> length xs = n_actions \<lparr>table = 0, init_value = 0, n_actions = 2, bucketer = None\<rparr> \<and>
      od_get \<lparr>table = 0, init_value = 0, n_actions = 2, bucketer = None\<rparr> s1' [PyInt 1, PyInt 2] = (Inr (Ref a'), s1'))"
proof -
  have h: "uniform 2 \<lparr>table = 0, init_value = 0, n_actions = 2, bucketer = None\<rparr> [Dict []] \<and> (0::nat) < 2 \<and>
      keys_of \<lparr>table = 0, init_value = 0, n_actions = 2, bucketer = None\<rparr> [PyInt 1, PyInt 2] = Inr [PyInt 1, PyInt 2] \<and> length [PyInt 1, PyInt 2] = 2"
    using example_uniform example_keys by simp
  note t1 = get_twice_same [THEN conjunct1, rule_format, OF example_get12]
  note t2 = get_twice_same [THEN conjunct2, rule_format, OF h]
  from t1 t2 h example_get12 show ?thesis by blast
qed

lemma write_then_get:
  assumes "reachable od s" and "od_get od s obs = (Inr (Ref r), s1)"
    and "s1 ! r = Vec xs" and "a < n_actions od"
  shows "\<exists>s2 xs'. write_item s1 r a x = Some s2 \<and>
           od_get od s2 obs = (Inr (Ref r), s2) \<and> s2 ! r = Vec xs' \<and> xs' ! a = x"
proof -
  from od_get_InrD [OF assms(2)] obtain ks where ks: "keys_of od obs = Inr ks" by blast
  have r1: "reachable od s1" by (rule after_get [OF assms(1,2)])
  have re: "reach s1 (Ref (table od)) ks = Some (Ref r)" by (rule od_get_reach [OF assms(2) ks])
  from reachable_reach [OF r1 re] have r: "r < length s1" .
  from reachable_inv [OF r1] r assms(3) have "length xs = n_actions od"
    by (simp add: leaves_ok_iff)
  with assms(4) have a: "a < length xs" by simp
  let ?s2 = "s1[r := Vec (xs[a := x])]"
  from r a assms(3) have w: "write_item s1 r a x = Some ?s2" by (simp add: write_item_def)
  from store_le_reach [OF write_item_store_le [OF w] re]
  have "reach ?s2 (Ref (table od)) ks = Some (Ref r)" .
  from reach_od_get [OF ks this] have "od_get od ?s2 obs = (Inr (Ref r), ?s2)" .
  moreover from r a have "?s2 ! r = Vec (xs[a := x])" "(xs[a := x]) ! a = x" by simp_all
  ultimately show ?thesis using w by blast
qed

text \<open>
  C7. In a state of the table, when \<^verbatim>\<open>get(obs)\<close> returns a leaf and \<open>a < n_actions\<close>,
  the write \<^verbatim>\<open>v[a] = x\<close> through the returned reference succeeds, and the next
  \<^verbatim>\<open>get(obs)\<close> returns the same leaf, whose element \<open>a\<close> is \<open>x\<close>. In a table asked only
  with keys of one length \<open>k \<ge> 1\<close>, \<^verbatim>\<open>get\<close> with such a key does return a leaf.
\<close>

theorem mutation_persists:
  "(reachable od s \<and> od_get od s obs = (Inr (Ref r), s1) \<and> s1 ! r = Vec xs \<and>
      a < n_actions od \<longrightarrow>
      (\<exists>s2 xs'. write_item s1 r a x = Some s2 \<and>
         od_get od s2 obs = (Inr (Ref r), s2) \<and> s2 ! r = Vec xs' \<and> xs' ! a = x)) \<and>
   (uniform k od' s' \<and> 0 < k \<and> keys_of od' obs' = Inr ks \<and> length ks = k \<and>
      a' < n_actions od' \<longrightarrow>
      (\<exists>r' s1' s2 xs'. od_get od' s' obs' = (Inr (Ref r'), s1') \<and>
         write_item s1' r' a' x' = Some s2 \<and>
         od_get od' s2 obs' = (Inr (Ref r'), s2) \<and> s2 ! r' = Vec xs' \<and> xs' ! a' = x'))"
proof (intro conjI impI)
  assume "reachable od s \<and> od_get od s obs = (Inr (Ref r), s1) \<and> s1 ! r = Vec xs \<and>
      a < n_actions od"
  then show "\<exists>s2 xs'. write_item s1 r a x = Some s2 \<and>
      od_get od s2 obs = (Inr (Ref r), s2) \<and> s2 ! r = Vec xs' \<and> xs' ! a = x"
    using write_then_get [of od s obs r s1 xs a x] by blast
next
  assume h: "uniform k od' s' \<and> 0 < k \<and> keys_of od' obs' = Inr ks \<and> length ks = k \<and>
      a' < n_actions od'"
  then have u: "uniform k od' s'" and k: "0 < k" and ks: "keys_of od' obs' = Inr ks"
    and l: "length ks = k" and a: "a' < n_actions od'" by simp_all
  from uniform_get_leaf [OF u k ks l] obtain r' s1' xs where
    g: "od_get od' s' obs' = (Inr (Ref r'), s1')" and v: "s1' ! r' = Vec xs" by blast
  from write_then_get [OF uniform_reachable [OF u] g v a, of x'] g
  show "\<exists>r' s1' s2 xs'. od_get od' s' obs' = (Inr (Ref r'), s1') \<and>
      write_item s1' r' a' x' = Some s2 \<and>
      od_get od' s2 obs' = (Inr (Ref r'), s2) \<and> s2 ! r' = Vec xs' \<and> xs' ! a' = x'"
    by blast
qed

theorem mutation_persists_witness:
  "reachable \<lparr>table = 0, init_value = 0, n_actions = 2, bucketer = None\<rparr> [Dict []] \<and>
   od_get \<lparr>table = 0, init_value = 0, n_actions = 2, bucketer = None\<rparr> [Dict []] [PyInt 1] = (Inr (Ref 1), [Dict [(1, 1)], Vec [0, 0]]) \<and>
   [Dict [(1, 1)], Vec [0, 0]] ! 1 = Vec [0, 0] \<and>
   1 < n_actions \<lparr>table = 0, init_value = 0, n_actions = 2, bucketer = None\<rparr> \<and>
   (\<exists>s2 xs'. write_item [Dict [(1, 1)], Vec [0, 0]] 1 1 5 = Some s2 \<and>
      od_get \<lparr>table = 0, init_value = 0, n_actions = 2, bucketer = None\<rparr> s2 [PyInt 1] = (Inr (Ref 1), s2) \<and> s2 ! 1 = Vec xs' \<and> xs' ! 1 = 5) \<and>
   uniform 1 \<lparr>table = 0, init_value = 0, n_actions = 2, bucketer = None\<rparr> [Dict []] \<and> (0::nat) < 1 \<and>
   keys_of \<lparr>table = 0, init_value = 0, n_actions = 2, bucketer = None\<rparr> [PyInt 1] = Inr [PyInt 1] \<and> length [PyInt 1] = 1 \<and>
   (\<exists>r' s1' s2 xs'. od_get \<lparr>table = 0, init_value = 0, n_actions = 2, bucketer = None\<rparr> [Dict []] [PyInt 1] = (Inr (Ref r'), s1') \<and>
      write_item s1' r' 1 5 = Some s2 \<and>
      od_get \<lparr>table = 0, init_value = 0, n_actions = 2, bucketer = None\<rparr> s2 [PyInt 1] = (Inr (Ref r'), s2) \<and> s2 ! r' = Vec xs' \<and> xs' ! 1 = 5)"
proof -
  have h1: "reachable \<lparr>table = 0, init_value = 0, n_actions = 2, bucketer = None\<rparr> [Dict []] \<and>
      od_get \<lparr>table = 0, init_value = 0, n_actions = 2, bucketer = None\<rparr> [Dict []] [PyInt 1] = (Inr (Ref 1), [Dict [(1, 1)], Vec [0, 0]]) \<and>
      [Dict [(1, 1)], Vec [0, 0]] ! 1 = Vec [0, 0] \<and> 1 < n_actions \<lparr>table = 0, init_value = 0, n_actions = 2, bucketer = None\<rparr>"
    using example_reachable example_get1 by simp
  have h2: "uniform 1 \<lparr>table = 0, init_value = 0, n_actions = 2, bucketer = None\<rparr> [Dict []] \<and> (0::nat) < 1 \<and>
      keys_of \<lparr>table = 0, init_value = 0, n_actions = 2, bucketer = None\<rparr> [PyInt 1] = Inr [PyInt 1] \<and> length [PyInt 1] = 1 \<and> 1 < n_actions \<lparr>table = 0, init_value = 0, n_actions = 2, bucketer = None\<rparr>"
    using example_uniform example_keys by simp
  note t1 = mutation_persists [THEN conjunct1, rule_format, OF h1, of 5]
  note t2 = mutation_persists [THEN conjunct2, rule_format, OF h2, of 5]
  from t1 t2 h1 h2 show ?thesis by blast
qed

lemma distinct_keys:
  assumes "reachable od s" and "od_get od s obs1 = (Inr (Ref a1), s1)"
    and "od_get od s1 obs2 = (Inr (Ref a2), s2)"
    and "keys_of od obs1 = Inr ks1" and "keys_of od obs2 = Inr ks2"
    and "map num_val ks1 \<noteq> map num_val ks2"
  shows "a1 \<noteq> a2 \<and>
         (\<forall>i x s3. write_item s2 a1 i x = Some s3 \<longrightarrow> s3 ! a2 = s2 ! a2) \<and>
         (\<forall>i x s3. write_item s2 a2 i x = Some s3 \<longrightarrow> s3 ! a1 = s2 ! a1)"
proof -
  have r2: "reachable od s2"
    by (rule after_get [OF after_get [OF assms(1,2)] assms(3)])
  have "reach s1 (Ref (table od)) ks1 = Some (Ref a1)" by (rule od_get_reach [OF assms(2,4)])
  from store_le_reach [OF od_get_store_le [OF assms(3)] this]
  have e1: "reach s2 (Ref (table od)) ks1 = Some (Ref a1)" .
  have e2: "reach s2 (Ref (table od)) ks2 = Some (Ref a2)" by (rule od_get_reach [OF assms(3,5)])
  from reachable_distinct [OF r2 e1 e2 assms(6)] have ne: "a1 \<noteq> a2" .
  then show ?thesis by (auto dest!: write_item_SomeD)
qed

text \<open>
  C8. In a state of the table, two calls of \<^verbatim>\<open>get\<close> whose key sequences differ return
  different objects, and a write to either leaves the other as it was. In a table
  asked only with keys of one length \<open>k \<ge> 1\<close>, the two calls do return references,
  to two different leaves.
\<close>

theorem distinct_keys_distinct_leaves:
  "(reachable od s \<and> od_get od s obs1 = (Inr (Ref a1), s1) \<and>
      od_get od s1 obs2 = (Inr (Ref a2), s2) \<and>
      keys_of od obs1 = Inr ks1 \<and> keys_of od obs2 = Inr ks2 \<and>
      map num_val ks1 \<noteq> map num_val ks2 \<longrightarrow>
      a1 \<noteq> a2 \<and>
      (\<forall>i x s3. write_item s2 a1 i x = Some s3 \<longrightarrow> s3 ! a2 = s2 ! a2) \<and>
      (\<forall>i x s3. write_item s2 a2 i x = Some s3 \<longrightarrow> s3 ! a1 = s2 ! a1)) \<and>
   (uniform k od' s' \<and> 0 < k \<and>
      keys_of od' obs1' = Inr ks1' \<and> length ks1' = k \<and>
      keys_of od' obs2' = Inr ks2' \<and> length ks2' = k \<and>
      map num_val ks1' \<noteq> map num_val ks2' \<longrightarrow>
      (\<exists>b1 t1 b2 t2 xs1 xs2. od_get od' s' obs1' = (Inr (Ref b1), t1) \<and>
         od_get od' t1 obs2' = (Inr (Ref b2), t2) \<and> b1 \<noteq> b2 \<and>
         t2 ! b1 = Vec xs1 \<and> t2 ! b2 = Vec xs2))"
proof (intro conjI impI)
  assume h: "reachable od s \<and> od_get od s obs1 = (Inr (Ref a1), s1) \<and>
      od_get od s1 obs2 = (Inr (Ref a2), s2) \<and>
      keys_of od obs1 = Inr ks1 \<and> keys_of od obs2 = Inr ks2 \<and>
      map num_val ks1 \<noteq> map num_val ks2"
  then have d: "a1 \<noteq> a2 \<and>
      (\<forall>i x s3. write_item s2 a1 i x = Some s3 \<longrightarrow> s3 ! a2 = s2 ! a2) \<and>
      (\<forall>i x s3. write_item s2 a2 i x = Some s3 \<longrightarrow> s3 ! a1 = s2 ! a1)"
    using distinct_keys [of od s obs1 a1 s1 obs2 a2 s2 ks1 ks2] by blast
  from d show "a1 \<noteq> a2" by simp
  from d show "\<forall>i x s3. write_item s2 a1 i x = Some s3 \<longrightarrow> s3 ! a2 = s2 ! a2" by simp
  from d show "\<forall>i x s3. write_item s2 a2 i x = Some s3 \<longrightarrow> s3 ! a1 = s2 ! a1" by simp
next
  assume h: "uniform k od' s' \<and> 0 < k \<and>
      keys_of od' obs1' = Inr ks1' \<and> length ks1' = k \<and>
      keys_of od' obs2' = Inr ks2' \<and> length ks2' = k \<and>
      map num_val ks1' \<noteq> map num_val ks2'"
  then have u: "uniform k od' s'" and k: "0 < k"
    and k1: "keys_of od' obs1' = Inr ks1'" and l1: "length ks1' = k"
    and k2: "keys_of od' obs2' = Inr ks2'" and l2: "length ks2' = k"
    and ne: "map num_val ks1' \<noteq> map num_val ks2'" by simp_all
  from uniform_get_leaf [OF u k k1 l1] obtain b1 t1 xs1 where
    g1: "od_get od' s' obs1' = (Inr (Ref b1), t1)" and b1: "b1 < length t1"
    and v1: "t1 ! b1 = Vec xs1" by blast
  have u1: "uniform k od' t1" by (rule u_get [OF u k1 l1 g1])
  from uniform_get_leaf [OF u1 k k2 l2] obtain b2 t2 xs2 where
    g2: "od_get od' t1 obs2' = (Inr (Ref b2), t2)" and v2: "t2 ! b2 = Vec xs2" by blast
  from od_get_vec_same [OF g2 b1 v1] have v1': "t2 ! b1 = Vec xs1" .
  from distinct_keys [OF uniform_reachable [OF u] g1 g2 k1 k2 ne] have "b1 \<noteq> b2" by simp
  with g1 g2 v1' v2
  show "\<exists>b1 t1 b2 t2 xs1 xs2. od_get od' s' obs1' = (Inr (Ref b1), t1) \<and>
      od_get od' t1 obs2' = (Inr (Ref b2), t2) \<and> b1 \<noteq> b2 \<and>
      t2 ! b1 = Vec xs1 \<and> t2 ! b2 = Vec xs2" by blast
qed

theorem distinct_keys_distinct_leaves_witness:
  "reachable \<lparr>table = 0, init_value = 0, n_actions = 2, bucketer = None\<rparr> [Dict []] \<and>
   od_get \<lparr>table = 0, init_value = 0, n_actions = 2, bucketer = None\<rparr> [Dict []] [PyInt 1] = (Inr (Ref 1), [Dict [(1, 1)], Vec [0, 0]]) \<and>
   od_get \<lparr>table = 0, init_value = 0, n_actions = 2, bucketer = None\<rparr> [Dict [(1, 1)], Vec [0, 0]] [PyInt 2] =
     (Inr (Ref 2), [Dict [(1, 1), (2, 2)], Vec [0, 0], Vec [0, 0]]) \<and>
   keys_of \<lparr>table = 0, init_value = 0, n_actions = 2, bucketer = None\<rparr> [PyInt 1] = Inr [PyInt 1] \<and> keys_of \<lparr>table = 0, init_value = 0, n_actions = 2, bucketer = None\<rparr> [PyInt 2] = Inr [PyInt 2] \<and>
   map num_val [PyInt 1] \<noteq> map num_val [PyInt 2] \<and>
   (1::nat) \<noteq> 2 \<and>
   write_item [Dict [(1, 1), (2, 2)], Vec [0, 0], Vec [0, 0]] 1 0 5 =
     Some [Dict [(1, 1), (2, 2)], Vec [5, 0], Vec [0, 0]] \<and>
   [Dict [(1, 1), (2, 2)], Vec [5, 0], Vec [0, 0]] ! 2 =
     [Dict [(1, 1), (2, 2)], Vec [0, 0], Vec [0, 0]] ! 2 \<and>
   uniform 1 \<lparr>table = 0, init_value = 0, n_actions = 2, bucketer = None\<rparr> [Dict []] \<and> (0::nat) < 1 \<and> length [PyInt 1] = 1 \<and> length [PyInt 2] = 1 \<and>
   (\<exists>b1 t1 b2 t2 xs1 xs2. od_get \<lparr>table = 0, init_value = 0, n_actions = 2, bucketer = None\<rparr> [Dict []] [PyInt 1] = (Inr (Ref b1), t1) \<and>
      od_get \<lparr>table = 0, init_value = 0, n_actions = 2, bucketer = None\<rparr> t1 [PyInt 2] = (Inr (Ref b2), t2) \<and> b1 \<noteq> b2 \<and>
      t2 ! b1 = Vec xs1 \<and> t2 ! b2 = Vec xs2)"
proof -
  have ne: "map num_val [PyInt 1] \<noteq> map num_val [PyInt 2]" by simp
  have h1: "reachable \<lparr>table = 0, init_value = 0, n_actions = 2, bucketer = None\<rparr> [Dict []] \<and>
      od_get \<lparr>table = 0, init_value = 0, n_actions = 2, bucketer = None\<rparr> [Dict []] [PyInt 1] = (Inr (Ref 1), [Dict [(1, 1)], Vec [0, 0]]) \<and>
      od_get \<lparr>table = 0, init_value = 0, n_actions = 2, bucketer = None\<rparr> [Dict [(1, 1)], Vec [0, 0]] [PyInt 2] =
        (Inr (Ref 2), [Dict [(1, 1), (2, 2)], Vec [0, 0], Vec [0, 0]]) \<and>
      keys_of \<lparr>table = 0, init_value = 0, n_actions = 2, bucketer = None\<rparr> [PyInt 1] = Inr [PyInt 1] \<and> keys_of \<lparr>table = 0, init_value = 0, n_actions = 2, bucketer = None\<rparr> [PyInt 2] = Inr [PyInt 2] \<and>
      map num_val [PyInt 1] \<noteq> map num_val [PyInt 2]"
    using example_reachable example_get1 example_get2 example_keys ne by simp
  have h2: "uniform 1 \<lparr>table = 0, init_value = 0, n_actions = 2, bucketer = None\<rparr> [Dict []] \<and> (0::nat) < 1 \<and>
      keys_of \<lparr>table = 0, init_value = 0, n_actions = 2, bucketer = None\<rparr> [PyInt 1] = Inr [PyInt 1] \<and> length [PyInt 1] = 1 \<and>
      keys_of \<lparr>table = 0, init_value = 0, n_actions = 2, bucketer = None\<rparr> [PyInt 2] = Inr [PyInt 2] \<and> length [PyInt 2] = 1 \<and>
      map num_val [PyInt 1] \<noteq> map num_val [PyInt 2]"
    using example_uniform example_keys by simp
  have w: "write_item [Dict [(1, 1), (2, 2)], Vec [0, 0], Vec [0, 0]] 1 0 5 =
      Some [Dict [(1, 1), (2, 2)], Vec [5, 0], Vec [0, 0]]"
    by (simp add: write_item_def)
  note t = distinct_keys_distinct_leaves [THEN conjunct1, rule_format, OF h1]
  note t' = distinct_keys_distinct_leaves [THEN conjunct2, rule_format, OF h2]
  from t have a: "(1::nat) \<noteq> 2" by (rule conjunct1)
  from t [THEN conjunct2, THEN conjunct1, rule_format, OF w]
  have b: "[Dict [(1, 1), (2, 2)], Vec [5, 0], Vec [0, 0]] ! 2 =
      [Dict [(1, 1), (2, 2)], Vec [0, 0], Vec [0, 0]] ! 2" .
  from a b w t' h1 h2 show ?thesis by blast
qed

text \<open>
  C10. In a state of a table with no bucketer, \<^verbatim>\<open>get\<close> with an empty observation
  raises nothing: it returns the reference to the root, which is a mapping, and
  the store is unchanged.
\<close>

theorem empty_key_returns_root:
  assumes "reachable od s" and "bucketer od = None"
  shows "od_get od s [] = (Inr (Ref (table od)), s) \<and> (\<exists>es. s ! table od = Dict es)"
proof -
  from reachable_inv [OF assms(1)] have "\<exists>es. s ! table od = Dict es"
    by (auto simp: tree_inv_def)
  with assms(2) show ?thesis by (simp add: od_get_def)
qed

theorem empty_key_returns_root_witness:
  "reachable \<lparr>table = 0, init_value = 0, n_actions = 2, bucketer = None\<rparr> [Dict []] \<and> bucketer \<lparr>table = 0, init_value = 0, n_actions = 2, bucketer = None\<rparr> = None \<and>
   od_get \<lparr>table = 0, init_value = 0, n_actions = 2, bucketer = None\<rparr> [Dict []] [] = (Inr (Ref (table \<lparr>table = 0, init_value = 0, n_actions = 2, bucketer = None\<rparr>)), [Dict []]) \<and>
   (\<exists>es. [Dict []] ! table \<lparr>table = 0, init_value = 0, n_actions = 2, bucketer = None\<rparr> = Dict es)"
proof -
  have h: "bucketer \<lparr>table = 0, init_value = 0, n_actions = 2, bucketer = None\<rparr> = None" by simp
  from empty_key_returns_root [OF example_reachable h] example_reachable h
  show ?thesis by blast
qed

text \<open>
  C6. The constructor leaves the table empty. The first \<^verbatim>\<open>get\<close> with a key of
  \<open>k \<ge> 1\<close> coordinates builds exactly one path: \<open>k\<close> mappings of one entry each, each
  leading to the next, and at the end an array of \<open>n_actions\<close> entries, all
  \<open>init_value\<close>. Every \<^verbatim>\<open>get\<close> in a state of the table keeps all leaves arrays of
  length \<open>n_actions\<close>, keeps every key sequence that led to an object leading to the
  same object (a leaf with its contents), and the key sequence of the call leads,
  one mapping per key, to the object returned.
\<close>

theorem lazy_creation_invariant:
  "(\<forall>iv na b od s. ObservationDict_init iv na b = (od, s) \<longrightarrow> s ! table od = Dict [] \<and> length s = 1) \<and>
   (\<forall>iv na b od s obs ks.
      ObservationDict_init iv na b = (od, s) \<and> keys_of od obs = Inr ks \<and> ks \<noteq> [] \<longrightarrow>
        od_get od s obs = (Inr (Ref (length ks)), chain 0 ks @ [Vec (replicate na iv)])) \<and>
   (\<forall>od s obs r s'. reachable od s \<and> od_get od s obs = (r, s') \<longrightarrow>
      leaves_ok od s' \<and>
      (\<forall>ks a. reach s (Ref (table od)) ks = Some (Ref a) \<longrightarrow>
         reach s' (Ref (table od)) ks = Some (Ref a) \<and>
         (\<forall>xs. s ! a = Vec xs \<longrightarrow> s' ! a = Vec xs)) \<and>
      (\<forall>ks a. keys_of od obs = Inr ks \<and> r = Inr (Ref a) \<longrightarrow>
         reach s' (Ref (table od)) ks = Some (Ref a) \<and> a < length s'))"
proof (intro conjI allI impI)
  fix iv na b od s
  assume "ObservationDict_init iv na b = (od, s)"
  from fresh_inv [OF this] show "s ! table od = Dict []" by simp
next
  fix iv na b od s
  assume "ObservationDict_init iv na b = (od, s)"
  from fresh_inv [OF this] show "length s = 1" by simp
next
  fix iv na b od s obs ks
  assume h: "ObservationDict_init iv na b = (od, s) \<and> keys_of od obs = Inr ks \<and> ks \<noteq> []"
  from h fresh_inv have f: "s = [Dict []]" "table od = 0" "init_value od = iv" "n_actions od = na"
    by blast+
  from h have k: "keys_of od obs = Inr ks" and ne: "ks \<noteq> []" by simp_all
  from walk_fresh_chain [OF ne, of 0 "length ks" od "[]"] f
  have "walk od (length ks) s (Ref (table od)) 0 ks =
      (Inr (Ref (length ks)), chain 0 ks @ [Vec (replicate na iv)])" by simp
  with od_get_keys_of [OF k]
  show "od_get od s obs = (Inr (Ref (length ks)), chain 0 ks @ [Vec (replicate na iv)])"
    by simp
next
  fix od s obs r s'
  assume h: "reachable od s \<and> od_get od s obs = (r, s')"
  then have "reachable od s'" by (blast intro: after_get)
  then show "leaves_ok od s'" by (simp add: reachable_inv)
next
  fix od s obs r s' ks a
  assume h: "reachable od s \<and> od_get od s obs = (r, s')"
    and re: "reach s (Ref (table od)) ks = Some (Ref a)"
  from h have g: "od_get od s obs = (r, s')" by simp
  from store_le_reach [OF od_get_store_le [OF g] re]
  show "reach s' (Ref (table od)) ks = Some (Ref a)" .
next
  fix od s obs r s' ks a xs
  assume h: "reachable od s \<and> od_get od s obs = (r, s')"
    and re: "reach s (Ref (table od)) ks = Some (Ref a)" and v: "s ! a = Vec xs"
  from h reachable_reach re have "a < length s" by blast
  with h od_get_vec_same v show "s' ! a = Vec xs" by blast
next
  fix od s obs r s' ks a
  assume h: "reachable od s \<and> od_get od s obs = (r, s')"
    and k: "keys_of od obs = Inr ks \<and> r = Inr (Ref a)"
  from h k have g: "od_get od s obs = (Inr (Ref a), s')" by simp
  from k od_get_reach [OF g] show "reach s' (Ref (table od)) ks = Some (Ref a)" by simp
next
  fix od s obs r s' ks a
  assume h: "reachable od s \<and> od_get od s obs = (r, s')"
    and k: "keys_of od obs = Inr ks \<and> r = Inr (Ref a)"
  from h k have g: "od_get od s obs = (Inr (Ref a), s')" by simp
  from k od_get_reach [OF g] have re: "reach s' (Ref (table od)) ks = Some (Ref a)" by simp
  from h have "reachable od s'" by (blast intro: after_get)
  from reachable_reach [OF this re] show "a < length s'" .
qed

theorem lazy_creation_invariant_witness:
  "ObservationDict_init 0 2 None = (\<lparr>table = 0, init_value = 0, n_actions = 2, bucketer = None\<rparr>, [Dict []]) \<and>
   [Dict []] ! table \<lparr>table = 0, init_value = 0, n_actions = 2, bucketer = None\<rparr> = Dict [] \<and>
   keys_of \<lparr>table = 0, init_value = 0, n_actions = 2, bucketer = None\<rparr> [PyInt 1, PyInt 2] = Inr [PyInt 1, PyInt 2] \<and> [PyInt 1, PyInt 2] \<noteq> [] \<and>
   od_get \<lparr>table = 0, init_value = 0, n_actions = 2, bucketer = None\<rparr> [Dict []] [PyInt 1, PyInt 2] =
     (Inr (Ref 2), [Dict [(1, 1)], Dict [(2, 2)], Vec [0, 0]]) \<and>
   reachable \<lparr>table = 0, init_value = 0, n_actions = 2, bucketer = None\<rparr> [Dict []] \<and>
   leaves_ok \<lparr>table = 0, init_value = 0, n_actions = 2, bucketer = None\<rparr> [Dict [(1, 1)], Dict [(2, 2)], Vec [0, 0]] \<and>
   reach [Dict [(1, 1)], Dict [(2, 2)], Vec [0, 0]] (Ref (table \<lparr>table = 0, init_value = 0, n_actions = 2, bucketer = None\<rparr>)) [PyInt 1, PyInt 2] =
     Some (Ref 2)"
proof -
  note t1 = lazy_creation_invariant [THEN conjunct1, rule_format]
  note t2 = lazy_creation_invariant [THEN conjunct2, THEN conjunct1, rule_format]
  note t3 = lazy_creation_invariant [THEN conjunct2, THEN conjunct2, rule_format]
  have ne: "[PyInt 1, PyInt 2] \<noteq> []" by simp
  from t1 [OF example_fresh] have a: "[Dict []] ! table \<lparr>table = 0, init_value = 0, n_actions = 2, bucketer = None\<rparr> = Dict []" by simp
  from t2 [of 0 2 None "\<lparr>table = 0, init_value = 0, n_actions = 2, bucketer = None\<rparr>" "[Dict []]" "[PyInt 1, PyInt 2]" "[PyInt 1, PyInt 2]"]
    example_fresh example_keys
  have b: "od_get \<lparr>table = 0, init_value = 0, n_actions = 2, bucketer = None\<rparr> [Dict []] [PyInt 1, PyInt 2] =
      (Inr (Ref 2), [Dict [(1, 1)], Dict [(2, 2)], Vec [0, 0]])"
    by (simp add: numeral_2_eq_2)
  from t3 [of "\<lparr>table = 0, init_value = 0, n_actions = 2, bucketer = None\<rparr>" "[Dict []]" "[PyInt 1, PyInt 2]" "Inr (Ref 2)"
      "[Dict [(1, 1)], Dict [(2, 2)], Vec [0, 0]]"] example_reachable b
  have c: "leaves_ok \<lparr>table = 0, init_value = 0, n_actions = 2, bucketer = None\<rparr> [Dict [(1, 1)], Dict [(2, 2)], Vec [0, 0]]" by blast
  from t3 [of "\<lparr>table = 0, init_value = 0, n_actions = 2, bucketer = None\<rparr>" "[Dict []]" "[PyInt 1, PyInt 2]" "Inr (Ref 2)"
      "[Dict [(1, 1)], Dict [(2, 2)], Vec [0, 0]]"] example_reachable b example_keys
  have d: "reach [Dict [(1, 1)], Dict [(2, 2)], Vec [0, 0]] (Ref (table \<lparr>table = 0, init_value = 0, n_actions = 2, bucketer = None\<rparr>))
      [PyInt 1, PyInt 2] = Some (Ref 2)" by blast
  from a b c d ne example_fresh example_keys example_reachable show ?thesis by blast
qed


end
